theory Spec2Isabelle
  imports Complex_Main "HOL-Library.Word"
begin

unbundle bit_operations_syntax

section \<open>Errors\<close>

text \<open>
  The exceptions the modules raise. Both \<^verbatim>\<open>bit_size\<close> functions and \<^verbatim>\<open>inverse\<close> raise
  Python's \<^verbatim>\<open>ValueError\<close>; the two uses are kept apart by their message. The modulo
  operator raises \<^verbatim>\<open>ZeroDivisionError\<close> on a zero divisor, and three-argument \<^verbatim>\<open>pow\<close>
  raises on a negative exponent or a zero modulus.
\<close>

datatype error =
    ValueError_Negative
  | ValueError_NotCoprime
  | OverflowError
  | ZeroDivisionError
  | PowError

section \<open>common.py\<close>

subsection \<open>bit_size and byte_size\<close>

text \<open>
  \<^verbatim>\<open>bits = 0; while number: bits += 1; number >>= 1\<close>. The loop is entered with
  \<^verbatim>\<open>number > 0\<close> only (negative numbers raise, zero returns before it), where the test
  \<^verbatim>\<open>while number\<close> is \<^verbatim>\<open>number > 0\<close>.
\<close>

function bit_size_loop :: "int \<Rightarrow> int \<Rightarrow> int" where
  "bit_size_loop number bits =
     (if number \<le> 0 then bits else bit_size_loop (drop_bit 1 number) (bits + 1))"
  by pat_completeness auto
termination
  by (relation "measure (\<lambda>(number, bits). nat number)") (auto simp: drop_bit_eq_div)

declare bit_size_loop.simps [simp del]

definition common_bit_size :: "int \<Rightarrow> error + int" where
  "common_bit_size number =
     (if number < 0 then Inl ValueError_Negative
      else if number = 0 then Inr 1
      else Inr (bit_size_loop number 0))"

text \<open>
  \<^verbatim>\<open>int(math.ceil(bit_size(number) / 8.0))\<close>: the quotient of a bit size by 8.0 is exact in
  doubles, so it is the quotient in the reals.
\<close>

definition common_byte_size :: "int \<Rightarrow> error + int" where
  "common_byte_size number =
     (case common_bit_size number of
        Inl e \<Rightarrow> Inl e
      | Inr b \<Rightarrow> Inr \<lceil>real_of_int b / 8\<rceil>)"

subsection \<open>gcd\<close>

text \<open>
  \<^verbatim>\<open>while q != 0: if p < q: (p,q) = (q,p); (p,q) = (q, p % q)\<close>, the same text in
  common.py and prime.py. On negative operands the loop need not end, so the result is
  an option; the modulo raises on a zero divisor.
\<close>

partial_function (option) gcd_rsa :: "int \<Rightarrow> int \<Rightarrow> (error + int) option" where
  "gcd_rsa p q =
     (if q \<noteq> 0 then
        (let p' = (if p < q then q else p); q' = (if p < q then p else q)
         in if q' = 0 then Some (Inl ZeroDivisionError) else gcd_rsa q' (p' mod q'))
      else Some (Inr p))"

subsection \<open>extended_gcd and inverse\<close>

function extended_gcd_loop ::
  "int \<Rightarrow> int \<Rightarrow> int \<Rightarrow> int \<Rightarrow> int \<Rightarrow> int \<Rightarrow> int \<times> int \<times> int" where
  "extended_gcd_loop a b x lx y ly =
     (if b \<noteq> 0 then
        (let q = a div b
         in extended_gcd_loop b (a mod b) (lx - q * x) x (ly - q * y) y)
      else (a, lx, ly))"
  by pat_completeness auto
termination
  by (relation "measure (\<lambda>(a, b, x, lx, y, ly). nat \<bar>b\<bar>)")
     (auto simp: abs_mod_less)

declare extended_gcd_loop.simps [simp del]

definition extended_gcd :: "int \<Rightarrow> int \<Rightarrow> int \<times> int \<times> int" where
  "extended_gcd a b =
     (let (r, lx, ly) = extended_gcd_loop a b 0 1 1 0;
          lx' = (if lx < 0 then lx + b else lx);
          ly' = (if ly < 0 then ly + a else ly)
      in (r, lx', ly'))"

definition inverse_rsa :: "int \<Rightarrow> int \<Rightarrow> error + int" where
  "inverse_rsa x n =
     (let (divider, inv_x, _) = extended_gcd x n
      in if divider \<noteq> 1 then Inl ValueError_NotCoprime else Inr inv_x)"

subsection \<open>crt\<close>

text \<open>The first loop: \<^verbatim>\<open>for modulo in modulo_values: m *= modulo\<close>.\<close>

fun crt_product :: "int \<Rightarrow> int list \<Rightarrow> int" where
  "crt_product m [] = m"
| "crt_product m (m_i # rest) = crt_product (m * m_i) rest"

text \<open>
  The second loop, over \<^verbatim>\<open>zip(modulo_values, a_values)\<close>. The floor division
  \<^verbatim>\<open>m // m_i\<close> raises on \<^verbatim>\<open>m_i = 0\<close>; an error of \<^verbatim>\<open>inverse\<close> ends the loop.
\<close>

fun crt_sum :: "int \<Rightarrow> int \<Rightarrow> (int \<times> int) list \<Rightarrow> error + int" where
  "crt_sum m x [] = Inr x"
| "crt_sum m x ((m_i, a_i) # rest) =
     (if m_i = 0 then Inl ZeroDivisionError
      else (let M_i = m div m_i
            in case inverse_rsa M_i m_i of
                 Inl e \<Rightarrow> Inl e
               | Inr inv_i \<Rightarrow> crt_sum m (x + a_i * M_i * inv_i) rest))"

definition crt :: "int list \<Rightarrow> int list \<Rightarrow> error + int" where
  "crt a_values modulo_values =
     (let m = crt_product 1 modulo_values
      in case crt_sum m 0 (zip modulo_values a_values) of
           Inl e \<Rightarrow> Inl e
         | Inr x \<Rightarrow> if m = 0 then Inl ZeroDivisionError else Inr (x mod m))"

section \<open>transform.py\<close>

text \<open>
  Python's floats are IEEE doubles. \<open>round_double x\<close> is the double nearest to the real
  \<open>x\<close>: 53 significant bits, a tie going to the even neighbour. The range of the exponent
  is not bounded, so the model is that of the doubles below \<open>2 ^ 1024\<close> in magnitude and
  above the subnormal ones.
\<close>

definition round_half_even :: "real \<Rightarrow> int" where
  "round_half_even y =
     (let f = \<lfloor>y\<rfloor>; d = y - of_int f
      in if d < 1 / 2 then f else if 1 / 2 < d then f + 1 else if even f then f else f + 1)"

definition round_double :: "real \<Rightarrow> real" where
  "round_double x =
     (if x = 0 then 0
      else (let s = 2 powr (of_int \<lfloor>log 2 \<bar>x\<bar>\<rfloor> - 52)
            in of_int (round_half_even (x / s)) * s))"

text \<open>
  \<^verbatim>\<open>math.log(number, 2)\<close> for a positive \<^verbatim>\<open>number\<close>: the number is converted to a double,
  the natural logarithms of it and of 2.0 are doubles (the library's logarithm taken as
  correctly rounded), and their quotient is a double.
\<close>

definition math_log2 :: "int \<Rightarrow> real" where
  "math_log2 number =
     round_double (round_double (ln (round_double (of_int number))) / round_double (ln 2))"

text \<open>
  \<^verbatim>\<open>int(math.ceil(math.log(number, 2)))\<close>: the ceiling of a double is exact, as is the
  conversion to an integer.
\<close>

definition transform_bit_size :: "int \<Rightarrow> error + int" where
  "transform_bit_size number =
     (if number < 0 then Inl ValueError_Negative
      else if number = 0 then Inr 1
      else Inr \<lceil>math_log2 number\<rceil>)"

text \<open>
  \<^verbatim>\<open>int(math.ceil(bit_size(number) / 8.0))\<close>: the quotient of a bit size by 8.0 is exact in
  doubles, so it is the quotient in the reals.
\<close>

definition transform_byte_size :: "int \<Rightarrow> error + int" where
  "transform_byte_size number =
     (case transform_bit_size number of
        Inl e \<Rightarrow> Inl e
      | Inr b \<Rightarrow> Inr \<lceil>real_of_int b / 8\<rceil>)"

text \<open>
  An element of the argument of \<^verbatim>\<open>bytes2int\<close>: an integer of a list, or a character of a
  list or of an 8-bit string (which \<^verbatim>\<open>ord\<close> turns into its code).
\<close>

datatype byte_item = IntItem int | ChrItem char

fun item_value :: "byte_item \<Rightarrow> int" where
  "item_value (IntItem i) = i"
| "item_value (ChrItem c) = of_char c"

fun bytes2int_loop :: "int \<Rightarrow> byte_item list \<Rightarrow> int" where
  "bytes2int_loop integer [] = integer"
| "bytes2int_loop integer (byte # rest) = bytes2int_loop (integer * 256 + item_value byte) rest"

definition bytes2int :: "byte_item list \<Rightarrow> int" where
  "bytes2int bytes = bytes2int_loop 0 bytes"

text \<open>An 8-bit string as the argument of \<^verbatim>\<open>bytes2int\<close>.\<close>

definition bytes2int_str :: "string \<Rightarrow> int" where
  "bytes2int_str s = bytes2int (map ChrItem s)"

text \<open>\<^verbatim>\<open>while number > 0: bytes.insert(0, chr(number & 0xFF)); number >>= 8\<close>\<close>

function int2bytes_loop :: "int \<Rightarrow> string \<Rightarrow> string" where
  "int2bytes_loop number bytes =
     (if number > 0
      then int2bytes_loop (drop_bit 8 number) (char_of (number AND 255) # bytes)
      else bytes)"
  by pat_completeness auto
termination
  by (relation "measure (\<lambda>(number, bytes). nat number)") (auto simp: drop_bit_eq_div)

declare int2bytes_loop.simps [simp del]

text \<open>
  \<^verbatim>\<open>int2bytes(number, block_size)\<close>; \<open>block_size = None\<close> is the call without a block size.
  A negative count times a string is the empty string in Python. The argument is an integer
  by its type, so the \<^verbatim>\<open>TypeError\<close> of the type check has no branch here, as for the
  argument of \<^verbatim>\<open>bytes2int\<close>.
\<close>

definition int2bytes :: "int \<Rightarrow> int option \<Rightarrow> error + string" where
  "int2bytes number block_size =
     (case block_size of
        None \<Rightarrow> Inr (int2bytes_loop number [])
      | Some bs \<Rightarrow>
          (case transform_byte_size number of
             Inl e \<Rightarrow> Inl e
           | Inr needed_bytes \<Rightarrow>
               if needed_bytes > bs then Inl OverflowError
               else Inr (replicate (nat (bs - needed_bytes)) (CHR 0x00)
                         @ int2bytes_loop number [])))"

section \<open>prime.py\<close>

subsection \<open>jacobi and jacobi_witness\<close>

text \<open>
  The loop of \<^verbatim>\<open>jacobi\<close>, returning the final \<^verbatim>\<open>a\<close> and \<^verbatim>\<open>result\<close>. The modulo
  \<^verbatim>\<open>b % a\<close> is taken with \<^verbatim>\<open>a > 1\<close> only.
\<close>

function jacobi_loop :: "int \<Rightarrow> int \<Rightarrow> int \<Rightarrow> int \<times> int" where
  "jacobi_loop a b result =
     (if a > 1 then
        (if a AND 1 \<noteq> 0 then
           jacobi_loop (b mod a) a
             (if drop_bit 2 ((a - 1) * (b - 1)) AND 1 \<noteq> 0 then - result else result)
         else
           jacobi_loop (drop_bit 1 a) b
             (if drop_bit 3 (b * b - 1) AND 1 \<noteq> 0 then - result else result))
      else (a, result))"
  by pat_completeness auto
termination
  by (relation "measure (\<lambda>(a, b, result). nat a)") (auto simp: drop_bit_eq_div)

declare jacobi_loop.simps [simp del]

definition jacobi :: "int \<Rightarrow> int \<Rightarrow> int" where
  "jacobi a b =
     (if a = 0 then 0
      else (let (a', result) = jacobi_loop a b 1
            in if a' = 0 then 0 else result))"

text \<open>
  \<^verbatim>\<open>j = jacobi(x, n) % n\<close> raises on \<^verbatim>\<open>n = 0\<close>; \<^verbatim>\<open>pow(x, (n - 1) // 2, n)\<close> raises on a
  negative exponent.
\<close>

definition jacobi_witness :: "int \<Rightarrow> int \<Rightarrow> error + bool" where
  "jacobi_witness x n =
     (if n = 0 then Inl ZeroDivisionError
      else if (n - 1) div 2 < 0 then Inl PowError
      else (let j = jacobi x n mod n;
                f = x ^ nat ((n - 1) div 2) mod n
            in if j = f then Inr False else Inr True))"

subsection \<open>The primality test\<close>

text \<open>
  \<^verbatim>\<open>rsa.randnum\<close> is the external random provider. Its \<^verbatim>\<open>randint(maxvalue)\<close> is a parameter
  \<open>rand\<close> of the model: a function of the provider's state \<open>g\<close> that returns the drawn
  value and the next state. \<^verbatim>\<open>for _ in range(k)\<close> runs \<open>k\<close> times.
\<close>

fun randomized_primality_testing ::
  "(int \<Rightarrow> 'g \<Rightarrow> int \<times> 'g) \<Rightarrow> int \<Rightarrow> nat \<Rightarrow> 'g \<Rightarrow> error + (bool \<times> 'g)" where
  "randomized_primality_testing rand n 0 g = Inr (True, g)"
| "randomized_primality_testing rand n (Suc k) g =
     (let (x, g') = rand (n - 1) g
      in case jacobi_witness x n of
           Inl e \<Rightarrow> Inl e
         | Inr w \<Rightarrow> if w then Inr (False, g') else randomized_primality_testing rand n k g')"

definition is_prime :: "(int \<Rightarrow> 'g \<Rightarrow> int \<times> 'g) \<Rightarrow> int \<Rightarrow> 'g \<Rightarrow> error + (bool \<times> 'g)" where
  "is_prime rand number g =
     (case randomized_primality_testing rand number 6 g of
        Inl e \<Rightarrow> Inl e
      | Inr (b, g') \<Rightarrow> if b then Inr (True, g') else Inr (False, g'))"

subsection \<open>getprime\<close>

text \<open>
  Modelled from the spec: \<^verbatim>\<open>rsa.randnum.read_random_int\<close> is not among the sources. The
  specification has it draw "a random integer of exactly \<open>bits\<close> bits (top bit forced set
  to fix the bit length)" from the random provider. The provider's raw draw is the
  parameter \<open>raw\<close>; the value returned keeps the low \<open>nbits\<close> bits of the draw and sets
  bit \<open>nbits - 1\<close>. A bit count is positive.
\<close>

definition read_random_int :: "(nat \<Rightarrow> 'g \<Rightarrow> int \<times> 'g) \<Rightarrow> nat \<Rightarrow> 'g \<Rightarrow> int \<times> 'g" where
  "read_random_int raw nbits g =
     (let (v, g') = raw nbits g
      in (take_bit nbits v OR push_bit (nbits - 1) 1, g'))"

text \<open>
  One round of the loop of \<^verbatim>\<open>getprime\<close>: the candidate (\<^verbatim>\<open>integer |= 1\<close>), whether it
  passed \<^verbatim>\<open>is_prime\<close>, and the provider's state afterwards.
\<close>

definition getprime_round ::
  "(int \<Rightarrow> 'g \<Rightarrow> int \<times> 'g) \<Rightarrow> (nat \<Rightarrow> 'g \<Rightarrow> int \<times> 'g) \<Rightarrow> nat \<Rightarrow> 'g
     \<Rightarrow> error + (int \<times> bool \<times> 'g)" where
  "getprime_round rand raw nbits g =
     (let (integer, g1) = read_random_int raw nbits g;
          integer = integer OR 1
      in case is_prime rand integer g1 of
           Inl e \<Rightarrow> Inl e
         | Inr (b, g2) \<Rightarrow> Inr (integer, b, g2))"

text \<open>\<^verbatim>\<open>while True:\<close> the loop has no bound, so not returning is the value \<open>None\<close>.\<close>

partial_function (option) getprime ::
  "(int \<Rightarrow> 'g \<Rightarrow> int \<times> 'g) \<Rightarrow> (nat \<Rightarrow> 'g \<Rightarrow> int \<times> 'g) \<Rightarrow> nat \<Rightarrow> 'g
     \<Rightarrow> (error + (int \<times> 'g)) option" where
  "getprime rand raw nbits g =
     (case getprime_round rand raw nbits g of
        Inl e \<Rightarrow> Some (Inl e)
      | Inr (integer, b, g2) \<Rightarrow>
          if b then Some (Inr (integer, g2)) else getprime rand raw nbits g2)"

text \<open>The provider's state at the start of round \<open>i\<close> of \<^verbatim>\<open>getprime\<close>.\<close>

definition round_state ::
  "(int \<Rightarrow> 'g \<Rightarrow> int \<times> 'g) \<Rightarrow> (nat \<Rightarrow> 'g \<Rightarrow> int \<times> 'g) \<Rightarrow> nat \<Rightarrow> 'g \<Rightarrow> 'g" where
  "round_state rand raw nbits g =
     (case getprime_round rand raw nbits g of
        Inl e \<Rightarrow> g
      | Inr (integer, b, g2) \<Rightarrow> g2)"

section \<open>Notions used to state the properties\<close>

text \<open>Moduli that are coprime in pairs.\<close>

fun pairwise_coprime :: "int list \<Rightarrow> bool" where
  "pairwise_coprime [] = True"
| "pairwise_coprime (m # ms) = ((\<forall>n \<in> set ms. coprime m n) \<and> pairwise_coprime ms)"

text \<open>What one round of the second loop of \<^verbatim>\<open>crt\<close> adds to \<^verbatim>\<open>x\<close>.\<close>

definition crt_term :: "int \<Rightarrow> int \<times> int \<Rightarrow> int" where
  "crt_term m z = (case z of (m_i, a_i) \<Rightarrow>
      a_i * (m div m_i) * fst (snd (extended_gcd (m div m_i) m_i)))"


text \<open>
  A prime, by trial division: the notion of an odd prime that the primality test is measured
  against.
\<close>

definition prime_number :: "int \<Rightarrow> bool" where
  "prime_number p \<longleftrightarrow> 1 < p \<and> (\<forall>d \<in> {2..<p}. \<not> d dvd p)"

text \<open>
  Gauss's count for an odd modulus \<open>n\<close>, the symbol the loop of \<^verbatim>\<open>jacobi\<close> computes: for
  \<open>k\<close> in \<open>1 .. (n - 1) div 2\<close> the residue of \<open>a * k\<close> lies in the lower half of
  \<open>1 .. n - 1\<close> (sign 1) or in the upper half (sign - 1, and \<open>n\<close> minus the residue lies
  in the lower half); the symbol is the product of the signs, and 0 when \<open>a\<close> and \<open>n\<close>
  have a common factor.
\<close>

definition gauss_sign :: "int \<Rightarrow> int \<Rightarrow> int \<Rightarrow> int" where
  "gauss_sign a n k = (if (a * k) mod n \<le> (n - 1) div 2 then 1 else - 1)"

definition gauss_res :: "int \<Rightarrow> int \<Rightarrow> int \<Rightarrow> int" where
  "gauss_res a n k = (if (a * k) mod n \<le> (n - 1) div 2 then (a * k) mod n else n - (a * k) mod n)"

definition gauss_symbol :: "int \<Rightarrow> int \<Rightarrow> int" where
  "gauss_symbol a n =
     (if coprime a n then (\<Prod>k \<in> {1..(n - 1) div 2}. gauss_sign a n k) else 0)"

section \<open>Bit and byte sizes\<close>

lemma bit_size_loop_bounds:
  "2 ^ k \<le> n \<Longrightarrow> n < 2 ^ Suc k \<Longrightarrow> bit_size_loop n acc = acc + int k + 1"
proof (induction k arbitrary: n acc)
  case 0
  then have n: "n = 1" by simp
  show ?case unfolding n
    by (subst bit_size_loop.simps, subst bit_size_loop.simps) simp
next
  case (Suc k)
  have pos: "0 < n" using Suc.prems(1) by (smt (verit) zero_less_power)
  have lo: "2 ^ k \<le> n div 2" using Suc.prems(1) by simp
  have hi: "n div 2 < 2 ^ Suc k" using Suc.prems(2) by simp
  have "bit_size_loop n acc = bit_size_loop (n div 2) (acc + 1)"
    using pos by (subst bit_size_loop.simps) (simp add: drop_bit_eq_div)
  also have "\<dots> = (acc + 1) + int k + 1"
    using lo hi by (rule Suc.IH)
  finally show ?case by simp
qed

lemma common_bit_size_bounds:
  assumes "2 ^ k \<le> n" "n < 2 ^ Suc k"
  shows "common_bit_size n = Inr (int k + 1)"
proof -
  have "0 < n" using assms(1) by (smt (verit) zero_less_power)
  then show ?thesis
    using bit_size_loop_bounds [OF assms, of 0] by (simp add: common_bit_size_def)
qed

lemma common_bit_size_pow2: "common_bit_size (2 ^ k) = Inr (int k + 1)"
  by (rule common_bit_size_bounds) simp_all

text \<open>Rounding to a double is exact on a power of two and commutes with a power of two.\<close>

lemma round_half_even_of_int: "round_half_even (of_int n) = n"
  by (simp add: round_half_even_def)

lemma round_half_even_pos: "1 \<le> y \<Longrightarrow> 1 \<le> round_half_even y"
proof -
  assume "1 \<le> y"
  then have "1 \<le> \<lfloor>y\<rfloor>" by (simp add: le_floor_iff)
  then show ?thesis by (simp add: round_half_even_def Let_def)
qed

lemma round_double_power_of_two: "round_double (2 ^ k) = 2 ^ k"
proof -
  have l: "\<lfloor>log 2 \<bar>2 ^ k :: real\<bar>\<rfloor> = int k" by simp
  let ?s = "2 powr (real_of_int (int k) - 52) :: real"
  have q: "(2 ^ k :: real) / ?s = of_int (2 ^ 52)"
  proof -
    have "(2 ^ k :: real) = 2 powr real k" by (simp add: powr_realpow)
    then have "(2 ^ k :: real) / ?s = 2 powr (real k - (real k - 52))"
      by (simp add: powr_diff)
    also have "\<dots> = 2 powr 52" by simp
    also have "\<dots> = of_int (2 ^ 52)" by (simp add: powr_numeral)
    finally show ?thesis .
  qed
  have "round_double (2 ^ k) = of_int (round_half_even ((2 ^ k) / ?s)) * ?s"
    by (simp add: round_double_def l Let_def)
  also have "\<dots> = of_int (2 ^ 52) * ?s"
    by (simp only: q round_half_even_of_int)
  also have "\<dots> = ((2 ^ k) / ?s) * ?s" by (simp only: q)
  also have "\<dots> = 2 ^ k" by simp
  finally show ?thesis .
qed

lemma round_double_scale:
  assumes "x \<noteq> 0"
  shows "round_double (2 ^ k * x) = 2 ^ k * round_double x"
proof -
  have nz: "2 ^ k * x \<noteq> 0" using assms by simp
  have "log 2 \<bar>2 ^ k * x\<bar> = log 2 (2 ^ k) + log 2 \<bar>x\<bar>"
    using assms by (simp add: abs_mult log_mult)
  then have h: "log 2 \<bar>2 ^ k * x\<bar> = of_int (int k) + log 2 \<bar>x\<bar>" by simp
  have fl: "\<lfloor>log 2 \<bar>2 ^ k * x\<bar>\<rfloor> = int k + \<lfloor>log 2 \<bar>x\<bar>\<rfloor>"
    unfolding h by (rule int_add_floor [symmetric])
  let ?s = "2 powr (of_int \<lfloor>log 2 \<bar>x\<bar>\<rfloor> - 52) :: real"
  have s: "2 powr (of_int \<lfloor>log 2 \<bar>2 ^ k * x\<bar>\<rfloor> - 52) = 2 ^ k * ?s"
  proof -
    have "of_int \<lfloor>log 2 \<bar>2 ^ k * x\<bar>\<rfloor> - 52 = real k + (of_int \<lfloor>log 2 \<bar>x\<bar>\<rfloor> - 52)"
      by (simp add: fl)
    then have "2 powr (of_int \<lfloor>log 2 \<bar>2 ^ k * x\<bar>\<rfloor> - 52) = 2 powr real k * ?s"
      by (simp only: powr_add)
    then show ?thesis by (simp add: powr_realpow)
  qed
  have q: "(2 ^ k * x) / (2 ^ k * ?s) = x / ?s" by simp
  have "round_double (2 ^ k * x) = of_int (round_half_even ((2 ^ k * x) / (2 ^ k * ?s))) * (2 ^ k * ?s)"
    using nz by (simp only: round_double_def s Let_def if_False)
  also have "\<dots> = 2 ^ k * (of_int (round_half_even (x / ?s)) * ?s)"
    by (simp only: q) simp
  also have "of_int (round_half_even (x / ?s)) * ?s = round_double x"
    using assms by (simp only: round_double_def Let_def if_False)
  finally show ?thesis .
qed

lemma round_double_pos:
  assumes "0 < x"
  shows "0 < round_double x"
proof -
  let ?e = "\<lfloor>log 2 \<bar>x\<bar>\<rfloor>"
  let ?s = "2 powr (of_int ?e - 52) :: real"
  have s0: "0 < ?s" by simp
  have "of_int ?e \<le> log 2 x" using assms by simp
  then have "2 powr of_int ?e \<le> 2 powr log 2 x" by simp
  then have lo: "2 powr of_int ?e \<le> x" using assms by simp
  have a: "1 \<le> x / 2 powr of_int ?e" using lo by simp
  have b: "(1::real) \<le> 2 powr 52" by simp
  have "1 * 1 \<le> (x / 2 powr of_int ?e) * 2 powr 52"
  proof (rule mult_mono)
    show "1 \<le> x / 2 powr of_int ?e" by (rule a)
    show "(1::real) \<le> 2 powr 52" by (rule b)
    show "0 \<le> x / 2 powr of_int ?e" using a by linarith
    show "(0::real) \<le> 1" by simp
  qed
  moreover have "x / ?s = (x / 2 powr of_int ?e) * 2 powr 52" by (simp add: powr_diff)
  ultimately have "1 \<le> x / ?s" by simp
  then have "1 \<le> round_half_even (x / ?s)" by (rule round_half_even_pos)
  then have "0 < real_of_int (round_half_even (x / ?s))" by simp
  then have "0 < real_of_int (round_half_even (x / ?s)) * ?s" using s0 by simp
  then show ?thesis using assms by (simp add: round_double_def Let_def)
qed

lemma math_log2_1: "math_log2 1 = 0"
proof -
  have "round_double 1 = 1" using round_double_power_of_two [of 0] by simp
  then show ?thesis by (simp add: math_log2_def round_double_def)
qed

lemma math_log2_256: "math_log2 256 = 8"
proof -
  have r256: "round_double 256 = 256" using round_double_power_of_two [of 8] by simp
  have r8: "round_double 8 = 8" using round_double_power_of_two [of 3] by simp
  have "ln ((2::real) ^ 8) = real 8 * ln 2" by (rule ln_realpow)
  moreover have "(2::real) ^ 8 = 256" by simp
  moreover have "real 8 = 2 ^ 3" by simp
  ultimately have l: "ln (256::real) = 2 ^ 3 * ln 2" by (simp only:)
  have l2: "(0::real) < ln 2" by simp
  then have nz: "ln (2::real) \<noteq> 0" by simp
  have sc: "round_double (ln 256) = 2 ^ 3 * round_double (ln 2)"
    using round_double_scale [OF nz, of 3] by (simp only: l)
  have p: "round_double (ln 2) \<noteq> 0" using round_double_pos [OF l2] by simp
  have "round_double (ln 256) / round_double (ln 2) = 2 ^ 3 * round_double (ln 2) / round_double (ln 2)"
    by (simp only: sc)
  also have "\<dots> = 2 ^ 3" using p by simp
  also have "\<dots> = (8::real)" by simp
  finally have q: "round_double (ln 256) / round_double (ln 2) = 8" .
  have "math_log2 256 = round_double (round_double (ln (round_double 256)) / round_double (ln 2))"
    by (simp only: math_log2_def of_int_numeral)
  also have "\<dots> = 8" by (simp only: r256 q r8)
  finally show ?thesis .
qed

lemma transform_bit_size_1: "transform_bit_size 1 = Inr 0"
  by (simp add: transform_bit_size_def math_log2_1)

lemma transform_bit_size_256: "transform_bit_size 256 = Inr 8"
  by (simp add: transform_bit_size_def math_log2_256)

lemma ceil8: "\<lceil>real_of_int b / 8\<rceil> = (b + 7) div 8"
proof -
  have "\<lceil>real_of_int b / real_of_int 8\<rceil> = - (- b div 8)" by (rule ceiling_divide_eq_div)
  then show ?thesis by simp
qed

lemma transform_byte_size_0: "transform_byte_size 0 = Inr 1"
  using ceil8 [of 1] by (simp add: transform_byte_size_def transform_bit_size_def)

lemma transform_byte_size_1: "transform_byte_size 1 = Inr 0"
  by (simp add: transform_byte_size_def transform_bit_size_1)

lemma common_byte_size_1: "common_byte_size 1 = Inr 1"
  using ceil8 [of 1] common_bit_size_pow2 [of 0] by (simp add: common_byte_size_def)

lemma tbs256: "transform_byte_size 256 = Inr 1"
  using ceil8 [of 8] by (simp add: transform_byte_size_def transform_bit_size_256)

lemma common_bit_size_256: "common_bit_size 256 = Inr 9"
  using common_bit_size_pow2 [of 8] by simp

lemma common_byte_size_256: "common_byte_size 256 = Inr 2"
  using ceil8 [of 9] by (simp add: common_byte_size_def common_bit_size_256)

section \<open>Bytes and integers\<close>

lemma and_255_eq_mod: "(n::int) AND 255 = n mod 256"
proof -
  have "(255::int) = mask 8" by (simp add: mask_eq_exp_minus_1)
  then have "n AND 255 = take_bit 8 n" by (simp add: take_bit_eq_mask)
  then show ?thesis by (simp add: take_bit_eq_mod)
qed

lemma bytes2int_loop_acc:
  "bytes2int_loop acc xs = acc * 256 ^ length xs + bytes2int_loop 0 xs"
proof (induction xs arbitrary: acc)
  case Nil
  show ?case by simp
next
  case (Cons x xs)
  have "bytes2int_loop acc (x # xs) = bytes2int_loop (acc * 256 + item_value x) xs" by simp
  also have "\<dots> = (acc * 256 + item_value x) * 256 ^ length xs + bytes2int_loop 0 xs"
    by (rule Cons.IH)
  also have "bytes2int_loop 0 (x # xs) = item_value x * 256 ^ length xs + bytes2int_loop 0 xs"
    using Cons.IH [of "item_value x"] by simp
  ultimately show ?case by (simp add: algebra_simps)
qed

lemma bytes2int_int2bytes_loop:
  "0 \<le> n \<Longrightarrow> bytes2int_loop 0 (map ChrItem (int2bytes_loop n bs))
     = n * 256 ^ length bs + bytes2int_loop 0 (map ChrItem bs)"
proof (induction n bs rule: int2bytes_loop.induct)
  case (1 number bytes)
  show ?case
  proof (cases "number > 0")
    case False
    with "1.prems" have "number = 0" by simp
    then show ?thesis by (simp add: int2bytes_loop.simps)
  next
    case True
    let ?c = "char_of (number AND 255)"
    have nn: "0 \<le> drop_bit 8 number" using True by (simp add: drop_bit_eq_div)
    have step: "int2bytes_loop number bytes = int2bytes_loop (drop_bit 8 number) (?c # bytes)"
      using True by (subst int2bytes_loop.simps) simp
    have IH: "bytes2int_loop 0 (map ChrItem (int2bytes_loop (drop_bit 8 number) (?c # bytes)))
        = drop_bit 8 number * 256 ^ length (?c # bytes) + bytes2int_loop 0 (map ChrItem (?c # bytes))"
      using "1.IH" [OF True nn] .
    have c: "(of_char ?c :: int) = number mod 256"
      by (simp add: and_255_eq_mod)
    have hd: "bytes2int_loop 0 (map ChrItem (?c # bytes))
        = (number mod 256) * 256 ^ length bytes + bytes2int_loop 0 (map ChrItem bytes)"
      using bytes2int_loop_acc [of "number mod 256" "map ChrItem bytes"] c by simp
    have "drop_bit 8 number * 256 + number mod 256 = number"
      by (simp add: drop_bit_eq_div)
    then have "number * 256 ^ length bytes
        = drop_bit 8 number * 256 ^ length (?c # bytes) + (number mod 256) * 256 ^ length bytes"
      by (metis (no_types, lifting) distrib_right length_Cons mult.assoc power_Suc)
    with step IH hd show ?thesis by simp
  qed
qed

lemma int2bytes_roundtrip:
  "0 \<le> n \<Longrightarrow> (\<exists>s. int2bytes n None = Inr s \<and> bytes2int_str s = n)"
  using bytes2int_int2bytes_loop [of n "[]"]
  by (simp add: int2bytes_def bytes2int_str_def bytes2int_def)

section \<open>The greatest common divisor\<close>

lemma gcd_rsa_ordered:
  "0 \<le> q \<Longrightarrow> q \<le> p \<Longrightarrow> gcd_rsa p q = Some (Inr (gcd p q))"
proof (induction "nat q" arbitrary: p q rule: less_induct)
  case less
  show ?case
  proof (cases "q = 0")
    case True
    with less.prems show ?thesis by (simp add: gcd_rsa.simps)
  next
    case False
    with less.prems have pos: "0 < q" by simp
    have r: "0 \<le> p mod q" "p mod q < q" using pos by simp_all
    have "gcd_rsa p q = gcd_rsa q (p mod q)"
      using False less.prems by (subst gcd_rsa.simps) simp
    also have "\<dots> = Some (Inr (gcd q (p mod q)))"
      using r pos by (intro less.hyps) (simp_all add: less_imp_le)
    also have "gcd q (p mod q) = gcd p q"
      by (rule gcd_red_int [symmetric])
    finally show ?thesis .
  qed
qed

lemma gcd_rsa_correct:
  assumes "0 \<le> p" "0 \<le> q" "0 < p \<or> q = 0"
  shows "gcd_rsa p q = Some (Inr (gcd p q))"
proof (cases "p < q")
  case False
  with assms show ?thesis by (simp add: gcd_rsa_ordered)
next
  case True
  with assms have pos: "0 < p" "q \<noteq> 0" by auto
  have "gcd_rsa p q = gcd_rsa p (q mod p)"
    using True pos by (subst gcd_rsa.simps) simp
  also have "\<dots> = Some (Inr (gcd p (q mod p)))"
  proof (rule gcd_rsa_ordered)
    show "0 \<le> q mod p" using pos by simp
    have "q mod p < p" using pos by simp
    then show "q mod p \<le> p" by simp
  qed
  also have "gcd p (q mod p) = gcd p q"
    using gcd_red_int [of q p] by (simp add: gcd.commute)
  finally show ?thesis .
qed

lemma gcd_rsa_zero_left: "0 < q \<Longrightarrow> gcd_rsa 0 q = Some (Inl ZeroDivisionError)"
  by (subst gcd_rsa.simps) simp


section \<open>The extended Euclidean algorithm and the inverse\<close>

lemma abs_sub_mult_opposite:
  fixes x lx q :: int
  assumes "x * lx \<le> 0" "0 \<le> q"
  shows "\<bar>lx - q * x\<bar> = \<bar>lx\<bar> + q * \<bar>x\<bar>"
proof (cases "x = 0")
  case True then show ?thesis by simp
next
  case False
  show ?thesis
  proof (cases "0 < x")
    case True
    with assms(1) have "lx \<le> 0" by (simp add: mult_le_0_iff)
    moreover have "0 \<le> q * x" using True assms(2) by simp
    ultimately show ?thesis using True by (simp add: abs_if)
  next
    case F: False
    with False have neg: "x < 0" by simp
    with assms(1) have "0 \<le> lx" by (simp add: mult_le_0_iff)
    moreover have "q * x \<le> 0" using neg assms(2) by (simp add: mult_le_0_iff)
    ultimately show ?thesis using neg by (simp add: abs_if algebra_simps)
  qed
qed

lemma extended_gcd_loop_inv:
  assumes "0 \<le> a" "0 \<le> b"
    and "lx * oa + ly * ob = a" "x * oa + y * ob = b"
    and "x * lx \<le> 0" "y * ly \<le> 0"
    and "\<bar>x\<bar> * a + \<bar>lx\<bar> * b = ob" "\<bar>y\<bar> * a + \<bar>ly\<bar> * b = oa"
    and "- ob \<le> x" "- ob \<le> lx" "- oa \<le> y" "- oa \<le> ly"
    and "gcd a b = gcd oa ob"
  shows "\<exists>i j. extended_gcd_loop a b x lx y ly = (gcd oa ob, i, j)
           \<and> i * oa + j * ob = gcd oa ob \<and> - ob \<le> i \<and> - oa \<le> j"
  using assms
proof (induction a b x lx y ly rule: extended_gcd_loop.induct)
  case (1 a b x lx y ly)
  show ?case
  proof (cases "b = 0")
    case True
    have "extended_gcd_loop a b x lx y ly = (a, lx, ly)"
      using True by (subst extended_gcd_loop.simps) simp
    moreover have "gcd oa ob = a" using "1.prems"(1,13) True by simp
    ultimately show ?thesis using "1.prems" by simp
  next
    case False
    with "1.prems"(2) have bpos: "0 < b" by simp
    define q where "q = a div b"
    have q0: "0 \<le> q" using "1.prems"(1) bpos by (simp add: q_def pos_imp_zdiv_nonneg_iff)
    have amod: "a mod b = a - q * b" by (simp add: q_def minus_div_mult_eq_mod [symmetric])
    have step: "extended_gcd_loop a b x lx y ly
                  = extended_gcd_loop b (a mod b) (lx - q * x) x (ly - q * y) y"
      using False by (subst extended_gcd_loop.simps) (simp add: q_def Let_def)
    have ax: "\<bar>lx - q * x\<bar> = \<bar>lx\<bar> + q * \<bar>x\<bar>"
      using "1.prems"(5) q0 by (rule abs_sub_mult_opposite)
    have ay: "\<bar>ly - q * y\<bar> = \<bar>ly\<bar> + q * \<bar>y\<bar>"
      using "1.prems"(6) q0 by (rule abs_sub_mult_opposite)
    have px: "\<bar>lx - q * x\<bar> * b + \<bar>x\<bar> * (a mod b) = ob"
      using "1.prems"(7) by (simp add: ax amod algebra_simps)
    have py: "\<bar>ly - q * y\<bar> * b + \<bar>y\<bar> * (a mod b) = oa"
      using "1.prems"(8) by (simp add: ay amod algebra_simps)
    have m0: "0 \<le> a mod b" using bpos by simp
    have bx: "- ob \<le> lx - q * x"
    proof -
      have "\<bar>lx - q * x\<bar> * 1 \<le> \<bar>lx - q * x\<bar> * b"
        using bpos by (intro mult_left_mono) simp_all
      moreover have "0 \<le> \<bar>x\<bar> * (a mod b)" using m0 by simp
      ultimately have "\<bar>lx - q * x\<bar> \<le> ob" using px by simp
      then show ?thesis by simp
    qed
    have by': "- oa \<le> ly - q * y"
    proof -
      have "\<bar>ly - q * y\<bar> * 1 \<le> \<bar>ly - q * y\<bar> * b"
        using bpos by (intro mult_left_mono) simp_all
      moreover have "0 \<le> \<bar>y\<bar> * (a mod b)" using m0 by simp
      ultimately have "\<bar>ly - q * y\<bar> \<le> oa" using py by simp
      then show ?thesis by simp
    qed
    have sx: "(lx - q * x) * x \<le> 0"
    proof -
      have "(lx - q * x) * x = x * lx - q * (x * x)" by (simp add: algebra_simps)
      moreover have "0 \<le> q * (x * x)" using q0 by simp
      ultimately show ?thesis using "1.prems"(5) by simp
    qed
    have sy: "(ly - q * y) * y \<le> 0"
    proof -
      have "(ly - q * y) * y = y * ly - q * (y * y)" by (simp add: algebra_simps)
      moreover have "0 \<le> q * (y * y)" using q0 by simp
      ultimately show ?thesis using "1.prems"(6) by simp
    qed
    have l1: "x * oa + y * ob = b" by (rule "1.prems"(4))
    have l2: "(lx - q * x) * oa + (ly - q * y) * ob = a mod b"
    proof -
      have "(lx - q * x) * oa + (ly - q * y) * ob
              = (lx * oa + ly * ob) - q * (x * oa + y * ob)"
        by (simp add: algebra_simps)
      then show ?thesis using "1.prems"(3,4) by (simp add: amod)
    qed
    have g: "gcd b (a mod b) = gcd oa ob"
      using "1.prems"(13) gcd_red_int [of a b] by simp
    have "\<exists>i j. extended_gcd_loop b (a mod b) (lx - q * x) x (ly - q * y) y = (gcd oa ob, i, j)
           \<and> i * oa + j * ob = gcd oa ob \<and> - ob \<le> i \<and> - oa \<le> j"
      using "1.prems"(2) m0 l1 l2 sx sy px py bx "1.prems"(9) by' "1.prems"(11) g
      by (intro "1.IH" [OF False q_def]) (simp_all add: mult.commute)
    with step show ?thesis by simp
  qed
qed

lemma extended_gcd_loop_start:
  assumes "0 \<le> a" "0 \<le> b"
  shows "\<exists>i j. extended_gcd_loop a b 0 1 1 0 = (gcd a b, i, j)
           \<and> i * a + j * b = gcd a b \<and> - b \<le> i \<and> - a \<le> j"
  using assms by (intro extended_gcd_loop_inv) simp_all

lemma extended_gcd_props:
  assumes "0 \<le> a" "0 \<le> b"
  shows "\<exists>i j i0 j0. extended_gcd a b = (gcd a b, i, j)
           \<and> 0 \<le> i \<and> 0 \<le> j
           \<and> gcd a b = i0 * a + j0 * b
           \<and> i = (if i0 < 0 then i0 + b else i0)
           \<and> j = (if j0 < 0 then j0 + a else j0)"
proof -
  obtain i0 j0 where l: "extended_gcd_loop a b 0 1 1 0 = (gcd a b, i0, j0)"
    and bez: "i0 * a + j0 * b = gcd a b" and lo: "- b \<le> i0" "- a \<le> j0"
    using extended_gcd_loop_start [OF assms] by blast
  let ?i = "if i0 < 0 then i0 + b else i0"
  let ?j = "if j0 < 0 then j0 + a else j0"
  have "extended_gcd a b = (gcd a b, ?i, ?j)"
    by (simp add: extended_gcd_def l)
  moreover have "0 \<le> ?i" "0 \<le> ?j" using lo by auto
  ultimately show ?thesis using bez by (intro exI [of _ ?i] exI [of _ ?j] exI [of _ i0] exI [of _ j0]) simp
qed

lemma extended_gcd_congruence:
  assumes "0 \<le> a" "0 \<le> b"
  shows "\<exists>i j. extended_gcd a b = (gcd a b, i, j) \<and> 0 \<le> i \<and> 0 \<le> j
           \<and> (i * a) mod b = gcd a b mod b \<and> (j * b) mod a = gcd a b mod a"
proof -
  obtain i j i0 j0 where e: "extended_gcd a b = (gcd a b, i, j)" and nn: "0 \<le> i" "0 \<le> j"
    and bez: "gcd a b = i0 * a + j0 * b"
    and i: "i = (if i0 < 0 then i0 + b else i0)" and j: "j = (if j0 < 0 then j0 + a else j0)"
    using extended_gcd_props [OF assms] by blast
  have "(i * a) mod b = (i0 * a) mod b"
  proof (cases "i0 < 0")
    case True
    then have "i * a = i0 * a + a * b" using i by (simp add: algebra_simps)
    then show ?thesis by simp
  next
    case False then show ?thesis using i by simp
  qed
  also have "\<dots> = (i0 * a + j0 * b) mod b" by simp
  finally have 1: "(i * a) mod b = gcd a b mod b" using bez by simp
  have "(j * b) mod a = (j0 * b) mod a"
  proof (cases "j0 < 0")
    case True
    then have "j * b = j0 * b + b * a" using j by (simp add: algebra_simps)
    then show ?thesis by simp
  next
    case False then show ?thesis using j by simp
  qed
  also have "\<dots> = (i0 * a + j0 * b) mod a" by (simp add: add.commute)
  finally have 2: "(j * b) mod a = gcd a b mod a" using bez by simp
  show ?thesis using e nn 1 2 by blast
qed

lemma inverse_rsa_props:
  assumes "0 \<le> x" "0 \<le> n"
  shows "(inverse_rsa x n = Inl ValueError_NotCoprime \<longleftrightarrow> gcd x n \<noteq> 1)"
    and "gcd x n = 1 \<Longrightarrow> \<exists>v. inverse_rsa x n = Inr v \<and> 0 \<le> v \<and> (v * x) mod n = 1 mod n
            \<and> v = fst (snd (extended_gcd x n))"
proof -
  obtain i j where e: "extended_gcd x n = (gcd x n, i, j)" and nn: "0 \<le> i"
    and c: "(i * x) mod n = gcd x n mod n"
    using extended_gcd_congruence [OF assms] by blast
  show "(inverse_rsa x n = Inl ValueError_NotCoprime \<longleftrightarrow> gcd x n \<noteq> 1)"
    by (simp add: inverse_rsa_def e)
  show "\<exists>v. inverse_rsa x n = Inr v \<and> 0 \<le> v \<and> (v * x) mod n = 1 mod n
            \<and> v = fst (snd (extended_gcd x n))" if "gcd x n = 1"
    using that nn c by (simp add: inverse_rsa_def e)
qed

section \<open>The Chinese remainder theorem\<close>

lemma crt_product_eq: "crt_product m ms = m * prod_list ms"
  by (induction ms arbitrary: m) (simp_all add: mult.assoc)

lemma prod_list_pos: "\<forall>m \<in> set ms. (0::int) < m \<Longrightarrow> 0 < prod_list ms"
  by (induction ms) simp_all

lemma pairwise_coprime_append:
  "pairwise_coprime (xs @ ys) \<longleftrightarrow>
     pairwise_coprime xs \<and> pairwise_coprime ys \<and> (\<forall>x \<in> set xs. \<forall>y \<in> set ys. coprime x y)"
  by (induction xs) auto

lemma pairwise_coprime_prod_dvd:
  "pairwise_coprime ms \<Longrightarrow> \<forall>m \<in> set ms. m dvd d \<Longrightarrow> prod_list ms dvd d"
proof (induction ms)
  case Nil
  show ?case by simp
next
  case (Cons m ms)
  have 1: "m dvd d" using Cons.prems(2) by simp
  have 2: "prod_list ms dvd d" using Cons by simp
  have 3: "coprime m (prod_list ms)"
    using Cons.prems(1) by (intro prod_list_coprime_right) simp
  show ?case using divides_mult [OF 1 2 3] by simp
qed

lemma crt_sum_eq:
  assumes "\<forall>(m_i, a_i) \<in> set zs. 0 < m_i \<and> 0 \<le> m div m_i \<and> gcd (m div m_i) m_i = 1"
  shows "crt_sum m x zs = Inr (x + sum_list (map (crt_term m) zs))"
  using assms
proof (induction zs arbitrary: x)
  case Nil
  show ?case by simp
next
  case (Cons z zs)
  obtain m_i a_i where z: "z = (m_i, a_i)" by (cases z)
  have p: "0 < m_i" "0 \<le> m div m_i" "gcd (m div m_i) m_i = 1"
    using Cons.prems by (simp_all add: z)
  obtain v where v: "inverse_rsa (m div m_i) m_i = Inr v"
    "v = fst (snd (extended_gcd (m div m_i) m_i))"
    using inverse_rsa_props(2) [OF p(2) _ p(3)] p(1) by auto
  have "crt_sum m x (z # zs) = crt_sum m (x + a_i * (m div m_i) * v) zs"
    using p(1) v(1) by (simp add: z Let_def)
  also have "\<dots> = Inr (x + a_i * (m div m_i) * v + sum_list (map (crt_term m) zs))"
    using Cons.prems by (intro Cons.IH) simp
  also have "a_i * (m div m_i) * v = crt_term m z"
    by (simp add: z crt_term_def v(2))
  finally show ?case by (simp add: add.assoc)
qed

lemma crt_term_mod:
  assumes "0 < m_i" "0 \<le> m div m_i" "gcd (m div m_i) m_i = 1"
  shows "crt_term m (m_i, a_i) mod m_i = a_i mod m_i"
proof -
  obtain v where v: "v = fst (snd (extended_gcd (m div m_i) m_i))"
    and c: "(v * (m div m_i)) mod m_i = 1 mod m_i"
    using inverse_rsa_props(2) [OF assms(2) _ assms(3)] assms(1) by auto
  have "crt_term m (m_i, a_i) = a_i * (v * (m div m_i))"
    by (simp add: crt_term_def v mult.commute mult.left_commute)
  also have "\<dots> mod m_i = (a_i * ((v * (m div m_i)) mod m_i)) mod m_i"
    by (simp add: mod_mult_right_eq)
  also have "\<dots> = (a_i * (1 mod m_i)) mod m_i" by (simp only: c)
  also have "\<dots> = a_i mod m_i" by (simp add: mod_mult_right_eq)
  finally show ?thesis .
qed

lemma sum_list_dvd:
  "\<forall>z \<in> set zs. (n::int) dvd f z \<Longrightarrow> n dvd sum_list (map f zs)"
  by (induction zs) simp_all

lemma crt_term_dvd:
  assumes "n dvd m div m_j"
  shows "n dvd crt_term m (m_j, a_j)"
  using assms by (simp add: crt_term_def)


lemma elem_dvd_prod_list: "(x::int) \<in> set xs \<Longrightarrow> x dvd prod_list xs"
  by (induction xs) auto

lemma crt_position:
  assumes pc: "pairwise_coprime ms" and pos: "\<forall>m \<in> set ms. 0 < m" and k: "k < length ms"
  shows "coprime (prod_list ms div ms ! k) (ms ! k)"
    and "\<forall>j < length ms. j \<noteq> k \<longrightarrow> ms ! j dvd prod_list ms div ms ! k"
proof -
  define pre post where "pre = take k ms" and "post = drop (Suc k) ms"
  have ms: "ms = pre @ ms ! k # post"
    using k by (simp add: pre_def post_def id_take_nth_drop)
  have lp: "length pre = k" using k by (simp add: pre_def)
  have nz: "ms ! k \<noteq> 0" using pos k by (metis less_irrefl nth_mem)
  have "prod_list ms = prod_list (pre @ ms ! k # post)" using ms by simp
  then have "prod_list ms = ms ! k * (prod_list pre * prod_list post)"
    by (simp add: algebra_simps)
  then have d: "prod_list ms div ms ! k = prod_list pre * prod_list post"
    using nz by simp
  have pc': "pairwise_coprime (pre @ ms ! k # post)" using pc ms by simp
  have c1: "\<forall>x \<in> set pre. coprime x (ms ! k)"
    using pc' by (simp add: pairwise_coprime_append)
  have c2: "\<forall>y \<in> set post. coprime y (ms ! k)"
    using pc' by (auto simp: pairwise_coprime_append coprime_commute)
  have "coprime (prod_list pre) (ms ! k)" using c1 by (intro prod_list_coprime_left) simp
  moreover have "coprime (prod_list post) (ms ! k)" using c2 by (intro prod_list_coprime_left) simp
  ultimately show "coprime (prod_list ms div ms ! k) (ms ! k)"
    by (simp add: d)
  show "\<forall>j < length ms. j \<noteq> k \<longrightarrow> ms ! j dvd prod_list ms div ms ! k"
  proof (intro allI impI)
    fix j assume j: "j < length ms" "j \<noteq> k"
    show "ms ! j dvd prod_list ms div ms ! k"
    proof (cases "j < k")
      case True
      then have "ms ! j = pre ! j" by (simp add: pre_def)
      moreover have "pre ! j \<in> set pre" using True lp by simp
      ultimately have "ms ! j dvd prod_list pre" by (simp add: elem_dvd_prod_list)
      then show ?thesis by (simp add: d)
    next
      case False
      with j have gt: "k < j" by simp
      then have "ms ! j = post ! (j - Suc k)" using j k by (simp add: post_def)
      moreover have "post ! (j - Suc k) \<in> set post"
        using gt j by (intro nth_mem) (simp add: post_def)
      ultimately have "ms ! j dvd prod_list post" by (simp add: elem_dvd_prod_list)
      then show ?thesis by (simp add: d)
    qed
  qed
qed

lemma sum_list_mod_at:
  fixes f :: "'a \<Rightarrow> int"
  assumes "k < length zs" "\<forall>j < length zs. j \<noteq> k \<longrightarrow> n dvd f (zs ! j)"
  shows "sum_list (map f zs) mod n = f (zs ! k) mod n"
proof -
  have "sum_list (map f zs) = (\<Sum>j = 0..<length zs. f (zs ! j))"
    by (simp add: sum_list_sum_nth)
  also have "\<dots> = f (zs ! k) + (\<Sum>j \<in> {0..<length zs} - {k}. f (zs ! j))"
    using assms(1) by (intro sum.remove) simp_all
  finally have "sum_list (map f zs) - f (zs ! k) = (\<Sum>j \<in> {0..<length zs} - {k}. f (zs ! j))"
    by simp
  moreover have "n dvd (\<Sum>j \<in> {0..<length zs} - {k}. f (zs ! j))"
    using assms(2) by (intro dvd_sum) simp
  ultimately have "n dvd sum_list (map f zs) - f (zs ! k)" by simp
  then show ?thesis by (simp add: mod_eq_dvd_iff)
qed

lemma crt_correct:
  assumes pc: "pairwise_coprime ms" and pos: "\<forall>m \<in> set ms. 0 < m"
    and len: "length as = length ms"
  shows "\<exists>x. crt as ms = Inr x \<and> 0 \<le> x \<and> x < prod_list ms
           \<and> (\<forall>i < length ms. x mod ms ! i = as ! i mod ms ! i)
           \<and> (\<forall>y. 0 \<le> y \<and> y < prod_list ms
                  \<and> (\<forall>i < length ms. y mod ms ! i = as ! i mod ms ! i) \<longrightarrow> y = x)"
proof -
  let ?M = "prod_list ms"
  let ?zs = "zip ms as"
  let ?S = "sum_list (map (crt_term ?M) ?zs)"
  have M: "0 < ?M" using pos by (rule prod_list_pos)
  have lz: "length ?zs = length ms" using len by simp
  have side: "0 < ms ! k \<and> 0 \<le> ?M div ms ! k \<and> gcd (?M div ms ! k) (ms ! k) = 1"
    if "k < length ms" for k
  proof -
    have p: "0 < ms ! k" using pos that by simp
    moreover have "0 \<le> ?M div ms ! k" using M p by (simp add: pos_imp_zdiv_nonneg_iff)
    moreover have "gcd (?M div ms ! k) (ms ! k) = 1"
      using crt_position(1) [OF pc pos that] by (simp add: coprime_iff_gcd_eq_1)
    ultimately show ?thesis by simp
  qed
  have "\<forall>(m_i, a_i) \<in> set ?zs. 0 < m_i \<and> 0 \<le> ?M div m_i \<and> gcd (?M div m_i) m_i = 1"
  proof (clarify)
    fix m_i a_i assume "(m_i, a_i) \<in> set ?zs"
    then obtain k where "k < length ms" "m_i = ms ! k"
      by (auto simp: set_zip)
    then show "0 < m_i \<and> 0 \<le> ?M div m_i \<and> gcd (?M div m_i) m_i = 1"
      using side by simp
  qed
  then have s: "crt_sum ?M 0 ?zs = Inr (0 + ?S)" by (rule crt_sum_eq)
  have res: "crt as ms = Inr (?S mod ?M)"
    using M s by (simp add: crt_def crt_product_eq Let_def)
  have cong: "(?S mod ?M) mod ms ! k = as ! k mod ms ! k" if k: "k < length ms" for k
  proof -
    have dv: "ms ! k dvd ?M" using k by (simp add: elem_dvd_prod_list)
    have "\<forall>j < length ?zs. j \<noteq> k \<longrightarrow> ms ! k dvd crt_term ?M (?zs ! j)"
    proof (intro allI impI)
      fix j assume j: "j < length ?zs" "j \<noteq> k"
      then have jl: "j < length ms" using lz by simp
      have "ms ! k dvd ?M div ms ! j"
        using crt_position(2) [OF pc pos jl] k j(2) by simp
      then show "ms ! k dvd crt_term ?M (?zs ! j)"
        using jl len by (simp add: crt_term_dvd)
    qed
    then have "?S mod ms ! k = crt_term ?M (?zs ! k) mod ms ! k"
      using k lz by (intro sum_list_mod_at) simp_all
    also have "\<dots> = crt_term ?M (ms ! k, as ! k) mod ms ! k"
      using k len by simp
    also have "\<dots> = as ! k mod ms ! k"
      using side [OF k] by (intro crt_term_mod) simp_all
    finally have "?S mod ms ! k = as ! k mod ms ! k" .
    then show ?thesis using dv by (simp add: mod_mod_cancel)
  qed
  have uniq: "y = ?S mod ?M"
    if y: "0 \<le> y" "y < ?M" "\<forall>i < length ms. y mod ms ! i = as ! i mod ms ! i" for y
  proof -
    have "\<forall>m \<in> set ms. m dvd (y - ?S mod ?M)"
    proof
      fix m assume "m \<in> set ms"
      then obtain k where k: "k < length ms" "m = ms ! k" by (auto simp: in_set_conv_nth)
      have "y mod m = (?S mod ?M) mod m" using y(3) cong [OF k(1)] k by simp
      then show "m dvd (y - ?S mod ?M)" by (simp add: mod_eq_dvd_iff)
    qed
    then have dvd: "?M dvd (y - ?S mod ?M)" using pc by (intro pairwise_coprime_prod_dvd)
    have b: "0 \<le> ?S mod ?M" "?S mod ?M < ?M" using M by simp_all
    show ?thesis
    proof (rule ccontr)
      assume ne: "y \<noteq> ?S mod ?M"
      then have "0 < \<bar>y - ?S mod ?M\<bar>" by simp
      moreover have "\<bar>y - ?S mod ?M\<bar> < ?M" using y(1,2) b by linarith
      moreover have "?M dvd \<bar>y - ?S mod ?M\<bar>" using dvd by simp
      ultimately show False using zdvd_not_zless by blast
    qed
  qed
  show ?thesis
  proof (intro exI conjI)
    show "crt as ms = Inr (?S mod ?M)" by (rule res)
    show "0 \<le> ?S mod ?M" "?S mod ?M < ?M" using M by simp_all
    show "\<forall>i < length ms. (?S mod ?M) mod ms ! i = as ! i mod ms ! i" using cong by simp
    show "\<forall>y. 0 \<le> y \<and> y < ?M \<and> (\<forall>i < length ms. y mod ms ! i = as ! i mod ms ! i)
            \<longrightarrow> y = ?S mod ?M" using uniq by blast
  qed
qed

section \<open>The prime search\<close>

lemma candidate_bounds:
  fixes v :: int
  assumes "0 < nbits"
  defines "c \<equiv> (take_bit nbits v OR push_bit (nbits - 1) 1) OR 1"
  shows "2 ^ (nbits - 1) \<le> c" "c < 2 ^ Suc (nbits - 1)" "odd c"
proof -
  let ?t = "take_bit nbits v" and ?p = "push_bit (nbits - 1) (1::int)"
  have n: "Suc (nbits - 1) = nbits" using assms(1) by simp
  have p: "?p = 2 ^ (nbits - 1)" by (simp add: push_bit_eq_mult)
  have t0: "0 \<le> ?t" by simp
  have tlt: "?t < 2 ^ nbits" by (rule take_bit_int_less_exp)
  have plt: "?p < 2 ^ nbits" using assms(1) by (simp add: p power_strict_increasing_iff)
  have one: "(1::int) < 2 ^ nbits" using assms(1) by (simp add: one_less_power)
  have "?p \<le> ?p OR ?t" using t0 by (rule or_greater_eq)
  also have "\<dots> = ?t OR ?p" by (simp add: or.commute)
  also have "\<dots> \<le> (?t OR ?p) OR 1" by (rule or_greater_eq) simp
  finally show "2 ^ (nbits - 1) \<le> c" by (simp add: c_def p)
  have lt: "?t OR ?p < 2 ^ nbits" using t0 tlt plt by (rule OR_upper)
  have nn: "0 \<le> ?t OR ?p" using t0 by (simp add: p)
  have "(?t OR ?p) OR 1 < 2 ^ nbits" using nn lt one by (rule OR_upper)
  then show "c < 2 ^ Suc (nbits - 1)" by (simp only: n c_def)
  show "odd c" by (simp add: c_def even_or_iff)
qed

lemma getprime_round_candidate:
  assumes "0 < nbits" "getprime_round rand raw nbits g = Inr (c, b, g2)"
  shows "odd c" "common_bit_size c = Inr (int nbits)"
    and "\<exists>v g1. read_random_int raw nbits g = (v, g1) \<and> c = v OR 1
            \<and> randomized_primality_testing rand c 6 g1 = Inr (b, g2)"
proof -
  obtain v g1 where r: "raw nbits g = (v, g1)" by (cases "raw nbits g")
  let ?c = "(take_bit nbits v OR push_bit (nbits - 1) 1) OR 1"
  have rr: "read_random_int raw nbits g = (take_bit nbits v OR push_bit (nbits - 1) 1, g1)"
    by (simp add: read_random_int_def r)
  have ip: "(case is_prime rand ?c g1 of Inl e \<Rightarrow> Inl e | Inr (b, g2) \<Rightarrow> Inr (?c, b, g2))
              = Inr (c, b, g2)"
    using assms(2) by (simp only: getprime_round_def rr Let_def prod.case)
  then have c: "c = ?c" and ip': "is_prime rand ?c g1 = Inr (b, g2)"
    by (auto split: sum.splits)
  show "odd c" using candidate_bounds(3) [OF assms(1), of v] by (simp add: c)
  have "common_bit_size ?c = Inr (int (nbits - 1) + 1)"
    using candidate_bounds(1,2) [OF assms(1), of v] by (rule common_bit_size_bounds)
  then show "common_bit_size c = Inr (int nbits)" using assms(1) by (simp add: c of_nat_diff)
  have "randomized_primality_testing rand ?c 6 g1 = Inr (b, g2)"
    using ip' by (auto simp: is_prime_def split: sum.splits if_splits)
  then show "\<exists>v g1. read_random_int raw nbits g = (v, g1) \<and> c = v OR 1
            \<and> randomized_primality_testing rand c 6 g1 = Inr (b, g2)"
    using rr c by blast
qed

lemma getprime_first_round_aux:
  assumes "getprime rand raw nbits g = Some y" "y = Inr (p, g')"
  shows "\<exists>i. getprime_round rand raw nbits ((round_state rand raw nbits ^^ i) g) = Inr (p, True, g')
           \<and> (\<forall>j<i. \<exists>c h. getprime_round rand raw nbits ((round_state rand raw nbits ^^ j) g)
                              = Inr (c, False, h))"
  using assms
proof (induction arbitrary: p g' rule: getprime.raw_induct [rotated 1, consumes 1])
  case (1 gp rand raw nbits g y)
  let ?st = "round_state rand raw nbits"
  let ?rd = "getprime_round rand raw nbits"
  note IH = "1.IH" and body = "1.hyps" and y = "1.prems"
  from body y obtain c b g2 where rd: "?rd g = Inr (c, b, g2)"
    by (cases "?rd g") (auto split: prod.splits)
  show ?case
  proof (cases b)
    case True
    with body rd y have "c = p" "g2 = g'" by simp_all
    with rd True have "?rd ((?st ^^ 0) g) = Inr (p, True, g')" by simp
    then show ?thesis by (intro exI [of _ 0]) simp
  next
    case False
    with body rd have "gp rand raw nbits g2 = Some y" by simp
    from IH [OF this y] obtain i where
      i: "?rd ((?st ^^ i) g2) = Inr (p, True, g')"
         "\<forall>j<i. \<exists>c h. ?rd ((?st ^^ j) g2) = Inr (c, False, h)"
      by blast
    have st: "?st g = g2" by (simp add: round_state_def rd)
    have sh: "(?st ^^ Suc k) g = (?st ^^ k) g2" for k
      by (simp add: funpow_swap1 st)
    have "?rd ((?st ^^ Suc i) g) = Inr (p, True, g')" using i(1) by (simp only: sh)
    moreover have "\<forall>j<Suc i. \<exists>c h. ?rd ((?st ^^ j) g) = Inr (c, False, h)"
    proof (intro allI impI)
      fix j assume j: "j < Suc i"
      show "\<exists>c h. ?rd ((?st ^^ j) g) = Inr (c, False, h)"
      proof (cases j)
        case 0
        then show ?thesis using rd False by simp
      next
        case (Suc k)
        then have "k < i" using j by simp
        then show ?thesis using i(2) unfolding Suc sh by blast
      qed
    qed
    ultimately show ?thesis by blast
  qed
qed

lemma getprime_first_round:
  assumes "getprime rand raw nbits g = Some (Inr (p, g'))"
  shows "\<exists>i. getprime_round rand raw nbits ((round_state rand raw nbits ^^ i) g) = Inr (p, True, g')
           \<and> (\<forall>j<i. \<exists>c h. getprime_round rand raw nbits ((round_state rand raw nbits ^^ j) g)
                              = Inr (c, False, h))"
  using assms by (rule getprime_first_round_aux) simp

lemma getprime_returns:
  assumes "getprime_round rand raw nbits ((round_state rand raw nbits ^^ i) g) = Inr (p, True, g')"
    and "\<forall>j<i. \<exists>c h. getprime_round rand raw nbits ((round_state rand raw nbits ^^ j) g)
                              = Inr (c, False, h)"
  shows "getprime rand raw nbits g = Some (Inr (p, g'))"
  using assms
proof (induction i arbitrary: g)
  case 0
  then show ?case by (subst getprime.simps) simp
next
  case (Suc i)
  let ?st = "round_state rand raw nbits"
  from Suc.prems(2) obtain c h where rd: "getprime_round rand raw nbits g = Inr (c, False, h)"
    by (metis funpow_0 zero_less_Suc)
  have st: "?st g = h" by (simp add: round_state_def rd)
  have sh: "(?st ^^ Suc k) g = (?st ^^ k) h" for k
    by (simp add: funpow_swap1 st)
  have 1: "getprime_round rand raw nbits ((?st ^^ i) h) = Inr (p, True, g')"
    using Suc.prems(1) by (simp only: sh)
  have 2: "\<forall>j<i. \<exists>c h'. getprime_round rand raw nbits ((?st ^^ j) h) = Inr (c, False, h')"
  proof (intro allI impI)
    fix j assume "j < i"
    then have "Suc j < Suc i" by simp
    with Suc.prems(2) have "\<exists>c h'. getprime_round rand raw nbits ((?st ^^ Suc j) g) = Inr (c, False, h')"
      by blast
    then show "\<exists>c h'. getprime_round rand raw nbits ((?st ^^ j) h) = Inr (c, False, h')"
      by (simp only: sh)
  qed
  have "getprime rand raw nbits g = getprime rand raw nbits h"
    by (subst getprime.simps) (simp add: rd)
  also have "\<dots> = Some (Inr (p, g'))" using 1 2 by (rule Suc.IH)
  finally show ?case .
qed

section \<open>The Jacobi symbol and the primality test\<close>

lemma odd_half: "odd (n::int) \<Longrightarrow> n = 2 * ((n - 1) div 2) + 1"
  by (auto elim: oddE)

lemma not_dvd_in_half:
  assumes "odd (n::int)" "coprime a n" "1 \<le> k" "k \<le> (n - 1) div 2"
  shows "(a * k) mod n \<noteq> 0"
proof
  assume "(a * k) mod n = 0"
  then have "n dvd a * k" by (simp add: dvd_eq_mod_eq_0)
  then have "n dvd k" using assms(2) by (simp add: coprime_commute coprime_dvd_mult_right_iff)
  then have "n \<le> k" using assms(3) by (intro zdvd_imp_le) simp_all
  moreover have "k < n" using odd_half [OF assms(1)] assms(3,4) by linarith
  ultimately show False by simp
qed

lemma gauss_res_range:
  assumes "odd (n::int)" "0 < n" "coprime a n" "1 \<le> k" "k \<le> (n - 1) div 2"
  shows "1 \<le> gauss_res a n k" "gauss_res a n k \<le> (n - 1) div 2"
proof -
  let ?r = "(a * k) mod n"
  have r: "0 \<le> ?r" "?r < n" using assms(2) by simp_all
  have nz: "?r \<noteq> 0" using assms(1,3,4,5) by (rule not_dvd_in_half)
  have n: "n = 2 * ((n - 1) div 2) + 1" using assms(1) by (rule odd_half)
  show "1 \<le> gauss_res a n k" using r nz by (simp add: gauss_res_def)
  show "gauss_res a n k \<le> (n - 1) div 2" using r n by (simp add: gauss_res_def)
qed

lemma gauss_repr:
  assumes "0 < (n::int)"
  shows "(gauss_sign a n k * gauss_res a n k) mod n = (a * k) mod n"
proof (cases "(a * k) mod n \<le> (n - 1) div 2")
  case True
  then show ?thesis by (simp add: gauss_sign_def gauss_res_def)
next
  case False
  have "(- (n - (a * k) mod n)) mod n = ((a * k) mod n - n) mod n" by simp
  also have "\<dots> = ((a * k) mod n) mod n"
    by (metis mod_diff_right_eq mod_self diff_zero)
  finally show ?thesis using False by (simp add: gauss_sign_def gauss_res_def)
qed

lemma signed_half_unique:
  fixes n :: int
  assumes "odd n" "0 < n"
    and "e1 = 1 \<or> e1 = - 1" "e2 = 1 \<or> e2 = - 1"
    and "1 \<le> s1" "s1 \<le> (n - 1) div 2" "1 \<le> s2" "s2 \<le> (n - 1) div 2"
    and "(e1 * s1) mod n = (e2 * s2) mod n"
  shows "e1 = e2 \<and> s1 = s2"
proof -
  have n: "n = 2 * ((n - 1) div 2) + 1" using assms(1) by (rule odd_half)
  have dvd: "n dvd e1 * s1 - e2 * s2" using assms(9) by (simp add: mod_eq_dvd_iff)
  have "\<bar>e1 * s1 - e2 * s2\<bar> < n"
    using assms(3-8) n by (auto simp: abs_if) 
  with dvd have "e1 * s1 - e2 * s2 = 0"
    using zdvd_not_zless [of "\<bar>e1 * s1 - e2 * s2\<bar>" n] by (cases "e1 * s1 - e2 * s2 = 0") auto
  then show ?thesis using assms(3-8) by auto
qed

lemma gauss_sign_cases: "gauss_sign a n k = 1 \<or> gauss_sign a n k = - 1"
  by (simp add: gauss_sign_def)

lemma gauss_res_inj:
  assumes "odd (n::int)" "0 < n" "coprime a n"
  shows "inj_on (gauss_res a n) {1..(n - 1) div 2}"
proof (rule inj_onI)
  fix k l assume k: "k \<in> {1..(n - 1) div 2}" and l: "l \<in> {1..(n - 1) div 2}"
    and eq: "gauss_res a n k = gauss_res a n l"
  have n: "n = 2 * ((n - 1) div 2) + 1" using assms(1) by (rule odd_half)
  let ?ek = "gauss_sign a n k" and ?el = "gauss_sign a n l" and ?s = "gauss_res a n k"
  have rk: "(a * k) mod n = (?ek * ?s) mod n" using gauss_repr [OF assms(2)] by simp
  have rl: "(a * l) mod n = (?el * ?s) mod n" using gauss_repr [OF assms(2), of a l] eq by simp
  have cop: "coprime n a" using assms(3) by (simp add: coprime_commute)
  show "k = l"
  proof (cases "?ek = ?el")
    case True
    with rk rl have "(a * k) mod n = (a * l) mod n" by simp
    then have "n dvd a * k - a * l" by (simp add: mod_eq_dvd_iff)
    then have "n dvd a * (k - l)" by (simp add: algebra_simps)
    then have d: "n dvd k - l" using cop by (simp add: coprime_dvd_mult_right_iff)
    have "\<bar>k - l\<bar> < n" using k l n by auto
    with d have "k - l = 0"
      using zdvd_not_zless [of "\<bar>k - l\<bar>" n] by (cases "k - l = 0") auto
    then show ?thesis by simp
  next
    case False
    then have op: "?ek = - ?el" using gauss_sign_cases [of a n k] gauss_sign_cases [of a n l] by auto
    have "(a * k) mod n = (- (?el * ?s)) mod n" using rk op by simp
    also have "\<dots> = (- (a * l)) mod n" using rl by (metis mod_minus_eq)
    finally have "n dvd a * k - (- (a * l))" by (simp only: mod_eq_dvd_iff)
    then have "n dvd a * (k + l)" by (simp add: algebra_simps)
    then have d: "n dvd k + l" using cop by (simp add: coprime_dvd_mult_right_iff)
    have "0 < k + l" "k + l < n" using k l n by auto
    with d show ?thesis using zdvd_not_zless [of "k + l" n] by simp
  qed
qed

lemma gauss_res_bij:
  assumes "odd (n::int)" "0 < n" "coprime a n"
  shows "bij_betw (gauss_res a n) {1..(n - 1) div 2} {1..(n - 1) div 2}"
proof -
  let ?H = "{1..(n - 1) div 2}"
  have sub: "gauss_res a n ` ?H \<subseteq> ?H"
    using gauss_res_range [OF assms] by auto
  have inj: "inj_on (gauss_res a n) ?H" using assms by (rule gauss_res_inj)
  have "gauss_res a n ` ?H = ?H"
    using sub inj by (intro endo_inj_surj) simp_all
  with inj show ?thesis by (simp add: bij_betw_def)
qed

lemma gauss_sign_mod: "gauss_sign (a mod n) n k = gauss_sign a n k"
  by (simp add: gauss_sign_def mod_mult_left_eq)

lemma gauss_symbol_mod: "gauss_symbol (a mod n) n = gauss_symbol a n"
proof -
  have "coprime (a mod n) n = coprime a n" by (cases "n = 0") simp_all
  then show ?thesis by (simp only: gauss_symbol_def gauss_sign_mod)
qed

lemma gauss_symbol_one:
  assumes "odd (n::int)" "0 < n"
  shows "gauss_symbol 1 n = 1"
proof -
  have n: "n = 2 * ((n - 1) div 2) + 1" using assms(1) by (rule odd_half)
  have "gauss_sign 1 n k = 1" if "k \<in> {1..(n - 1) div 2}" for k
  proof -
    have "0 \<le> k" "k < n" using that n by auto
    then have "k mod n = k" by simp
    then show ?thesis using that by (simp add: gauss_sign_def)
  qed
  then show ?thesis by (simp add: gauss_symbol_def)
qed

lemma gauss_symbol_zero:
  assumes "1 < (n::int)"
  shows "gauss_symbol 0 n = 0"
  using assms by (simp add: gauss_symbol_def)

lemma gauss_symbol_cases: "gauss_symbol a n = 1 \<or> gauss_symbol a n = - 1 \<or> gauss_symbol a n = 0"
proof -
  have "(\<Prod>k \<in> A. gauss_sign a n k) = 1 \<or> (\<Prod>k \<in> A. gauss_sign a n k) = - 1"
    if "finite A" for A
    using that
  proof (induction A)
    case empty
    show ?case by simp
  next
    case (insert x A)
    then show ?case using gauss_sign_cases [of a n x] by auto
  qed
  from this [of "{1..(n - 1) div 2}"]
  have "(\<Prod>k \<in> {1..(n - 1) div 2}. gauss_sign a n k) = 1
          \<or> (\<Prod>k \<in> {1..(n - 1) div 2}. gauss_sign a n k) = - 1" by simp
  then have P: "coprime a n \<Longrightarrow> gauss_symbol a n = 1 \<or> gauss_symbol a n = - 1"
    by (simp only: gauss_symbol_def if_True)
  have Q: "\<not> coprime a n \<Longrightarrow> gauss_symbol a n = 0"
    by (simp only: gauss_symbol_def if_False)
  show ?thesis using P Q by blast
qed

lemma gauss_sign_mult:
  assumes "odd (n::int)" "0 < n" "coprime a n" "coprime b n"
    and k: "1 \<le> k" "k \<le> (n - 1) div 2"
  shows "gauss_sign (a * b) n k = gauss_sign b n k * gauss_sign a n (gauss_res b n k)"
proof -
  let ?eb = "gauss_sign b n k" and ?pb = "gauss_res b n k"
  let ?ea = "gauss_sign a n ?pb" and ?pa = "gauss_res a n ?pb"
  have cab: "coprime (a * b) n" using assms(3,4) by simp
  have pb: "1 \<le> ?pb" "?pb \<le> (n - 1) div 2"
    using gauss_res_range [OF assms(1,2,4) k] by simp_all
  have pa: "1 \<le> ?pa" "?pa \<le> (n - 1) div 2"
    using gauss_res_range [OF assms(1,2,3) pb] by simp_all
  have pab: "1 \<le> gauss_res (a * b) n k" "gauss_res (a * b) n k \<le> (n - 1) div 2"
    using gauss_res_range [OF assms(1,2) cab k] by simp_all
  have "(a * b * k) mod n = (a * ((b * k) mod n)) mod n"
    by (simp add: mod_mult_right_eq mult.assoc)
  also have "\<dots> = (a * ((?eb * ?pb) mod n)) mod n"
    by (simp only: gauss_repr [OF assms(2)])
  also have "\<dots> = (?eb * (a * ?pb)) mod n"
    by (simp add: mod_mult_right_eq mult.left_commute)
  also have "\<dots> = (?eb * ((a * ?pb) mod n)) mod n"
    by (simp add: mod_mult_right_eq)
  also have "\<dots> = (?eb * ((?ea * ?pa) mod n)) mod n"
    by (simp only: gauss_repr [OF assms(2)])
  also have "\<dots> = ((?eb * ?ea) * ?pa) mod n"
    by (simp add: mod_mult_right_eq mult.assoc)
  finally have "(gauss_sign (a * b) n k * gauss_res (a * b) n k) mod n = ((?eb * ?ea) * ?pa) mod n"
    by (simp only: gauss_repr [OF assms(2)])
  moreover have "?eb * ?ea = 1 \<or> ?eb * ?ea = - 1"
    using gauss_sign_cases [of b n k] gauss_sign_cases [of a n ?pb] by auto
  ultimately have "gauss_sign (a * b) n k = ?eb * ?ea \<and> gauss_res (a * b) n k = ?pa"
    using assms(1,2) gauss_sign_cases [of "a * b" n k] pab pa
    by (intro signed_half_unique) simp_all
  then show ?thesis by simp
qed

lemma gauss_symbol_mult:
  assumes "odd (n::int)" "0 < n"
  shows "gauss_symbol (a * b) n = gauss_symbol a n * gauss_symbol b n"
proof (cases "coprime a n \<and> coprime b n")
  case False
  then have "\<not> coprime (a * b) n" by simp
  with False show ?thesis by (auto simp: gauss_symbol_def)
next
  case True
  then have ca: "coprime a n" and cb: "coprime b n" by simp_all
  let ?H = "{1..(n - 1) div 2}"
  have "(\<Prod>k \<in> ?H. gauss_sign (a * b) n k)
          = (\<Prod>k \<in> ?H. gauss_sign b n k * gauss_sign a n (gauss_res b n k))"
    using gauss_sign_mult [OF assms ca cb] by (intro prod.cong) simp_all
  also have "\<dots> = (\<Prod>k \<in> ?H. gauss_sign b n k) * (\<Prod>k \<in> ?H. gauss_sign a n (gauss_res b n k))"
    by (rule prod.distrib)
  also have "(\<Prod>k \<in> ?H. gauss_sign a n (gauss_res b n k)) = (\<Prod>j \<in> ?H. gauss_sign a n j)"
    using gauss_res_bij [OF assms cb] by (rule prod.reindex_bij_betw)
  finally show ?thesis using ca cb by (simp add: gauss_symbol_def mult.commute)
qed

lemma prod_signs_card:
  assumes "finite A"
  shows "(\<Prod>k \<in> A. if P k then 1 else - 1 :: int) = (if even (card {k \<in> A. \<not> P k}) then 1 else - 1)"
  using assms
proof (induction A)
  case empty
  show ?case by simp
next
  case (insert x A)
  show ?case
  proof (cases "P x")
    case True
    then have "{k \<in> insert x A. \<not> P k} = {k \<in> A. \<not> P k}" by auto
    with insert True show ?thesis by simp
  next
    case False
    then have "{k \<in> insert x A. \<not> P k} = insert x {k \<in> A. \<not> P k}" by auto
    moreover have "x \<notin> {k \<in> A. \<not> P k}" using insert.hyps by simp
    moreover have "finite {k \<in> A. \<not> P k}" using insert.hyps by simp
    ultimately have "card {k \<in> insert x A. \<not> P k} = Suc (card {k \<in> A. \<not> P k})" by simp
    with insert False show ?thesis by simp
  qed
qed

lemma gauss_symbol_card:
  assumes "coprime a n"
  shows "gauss_symbol a n
           = (if even (card {k \<in> {1..(n - 1) div 2}. \<not> (a * k) mod n \<le> (n - 1) div 2}) then 1 else - 1)"
proof -
  have "gauss_symbol a n = (\<Prod>k \<in> {1..(n - 1) div 2}. if (a * k) mod n \<le> (n - 1) div 2 then 1 else - 1)"
    using assms by (simp add: gauss_symbol_def gauss_sign_def)
  also have "\<dots> = (if even (card {k \<in> {1..(n - 1) div 2}. \<not> (a * k) mod n \<le> (n - 1) div 2}) then 1 else - 1)"
    by (rule prod_signs_card) simp
  finally show ?thesis .
qed

lemma second_supplement_parity:
  fixes h :: int
  assumes "0 \<le> h"
  shows "even (h - h div 2) \<longleftrightarrow> even (((2 * h + 1) * (2 * h + 1) - 1) div 8)"
proof -
  define t where "t = h div 4"
  define c where "c = h mod 4"
  have h: "h = 4 * t + c" by (simp add: t_def c_def)
  have c: "c = 0 \<or> c = 1 \<or> c = 2 \<or> c = 3"
  proof -
    have "0 \<le> c" "c < 4" by (simp_all add: c_def)
    then show ?thesis by auto
  qed
  from c show ?thesis
  proof (elim disjE)
    assume "c = 0"
    then have h': "h = 4 * t" using h by simp
    have "(2 * h + 1) * (2 * h + 1) - 1 = 8 * (2 * (4 * t * t + t))"
      by (simp add: h' algebra_simps)
    then have "((2 * h + 1) * (2 * h + 1) - 1) div 8 = 2 * (4 * t * t + t)" by simp
    moreover have "h - h div 2 = 2 * t" by (simp add: h')
    ultimately show ?thesis by simp
  next
    assume "c = 1"
    then have h': "h = 4 * t + 1" using h by simp
    have "(2 * h + 1) * (2 * h + 1) - 1 = 8 * (2 * (4 * t * t + 3 * t) + 1)"
      by (simp add: h' algebra_simps)
    then have "((2 * h + 1) * (2 * h + 1) - 1) div 8 = 2 * (4 * t * t + 3 * t) + 1" by simp
    moreover have "h - h div 2 = 2 * t + 1" by (simp add: h')
    ultimately show ?thesis by simp
  next
    assume "c = 2"
    then have h': "h = 4 * t + 2" using h by simp
    have "(2 * h + 1) * (2 * h + 1) - 1 = 8 * (2 * (4 * t * t + 5 * t + 1) + 1)"
      by (simp add: h' algebra_simps)
    then have "((2 * h + 1) * (2 * h + 1) - 1) div 8 = 2 * (4 * t * t + 5 * t + 1) + 1" by simp
    moreover have "h - h div 2 = 2 * t + 1" by (simp add: h')
    ultimately show ?thesis by simp
  next
    assume "c = 3"
    then have h': "h = 4 * t + 3" using h by simp
    have "(2 * h + 1) * (2 * h + 1) - 1 = 8 * (2 * (4 * t * t + 7 * t + 3))"
      by (simp add: h' algebra_simps)
    then have "((2 * h + 1) * (2 * h + 1) - 1) div 8 = 2 * (4 * t * t + 7 * t + 3)" by simp
    moreover have "h - h div 2 = 2 * t + 2" by (simp add: h')
    ultimately show ?thesis by simp
  qed
qed

lemma gauss_symbol_two:
  assumes "odd (n::int)" "0 < n"
  shows "gauss_symbol 2 n = (if even ((n * n - 1) div 8) then 1 else - 1)"
proof -
  define h where "h = (n - 1) div 2"
  have n: "n = 2 * h + 1" unfolding h_def using assms(1) by (rule odd_half)
  have h0: "0 \<le> h" using assms(2) n by simp
  have cop: "coprime 2 n" using assms(1) by simp
  have set: "{k \<in> {1..h}. \<not> (2 * k) mod n \<le> h} = {h div 2 + 1..h}"
  proof (rule set_eqI)
    fix k
    show "k \<in> {k \<in> {1..h}. \<not> (2 * k) mod n \<le> h} \<longleftrightarrow> k \<in> {h div 2 + 1..h}"
    proof (cases "1 \<le> k \<and> k \<le> h")
      case True
      then have "0 \<le> 2 * k" "2 * k < n" using n by simp_all
      then have "(2 * k) mod n = 2 * k" by simp
      then show ?thesis using True by auto
    next
      case False
      then show ?thesis using h0 by auto
    qed
  qed
  have "card {h div 2 + 1..h} = nat (h - h div 2)" by simp
  moreover have "0 \<le> h - h div 2" using h0 by simp
  ultimately have "even (card {h div 2 + 1..h}) \<longleftrightarrow> even (h - h div 2)"
    by (simp add: even_nat_iff)
  also have "\<dots> \<longleftrightarrow> even ((n * n - 1) div 8)"
    using second_supplement_parity [OF h0] by (simp only: n)
  finally have "even (card {k \<in> {1..h}. \<not> (2 * k) mod n \<le> h}) \<longleftrightarrow> even ((n * n - 1) div 8)"
    by (simp only: set)
  then show ?thesis using gauss_symbol_card [OF cop] by (simp only: h_def)
qed

lemma prime_number_coprime:
  assumes "prime_number p" "0 < k" "k < p"
  shows "coprime k p"
proof -
  let ?g = "gcd k p"
  have g1: "1 \<le> ?g" using assms(2) by (metis gcd_pos_int less_irrefl int_one_le_iff_zero_less)
  have "?g dvd k" by simp
  then have "?g \<le> k" using assms(2) by (rule zdvd_imp_le)
  then have glt: "?g < p" using assms(3) by simp
  have "?g = 1"
  proof (rule ccontr)
    assume "?g \<noteq> 1"
    with g1 glt have "?g \<in> {2..<p}" by simp
    moreover have "?g dvd p" by simp
    ultimately show False using assms(1) by (auto simp: prime_number_def)
  qed
  then show ?thesis by (simp add: coprime_iff_gcd_eq_1)
qed

lemma prod_mod_cong:
  fixes f g :: "'a \<Rightarrow> int"
  assumes "\<And>k. k \<in> A \<Longrightarrow> f k mod p = g k mod p"
  shows "prod f A mod p = prod g A mod p"
proof -
  have "prod f A mod p = (\<Prod>k \<in> A. f k mod p) mod p" by (simp add: mod_prod_eq)
  also have "(\<Prod>k \<in> A. f k mod p) = (\<Prod>k \<in> A. g k mod p)"
    using assms by (intro prod.cong) simp_all
  also have "\<dots> mod p = prod g A mod p" by (simp add: mod_prod_eq)
  finally show ?thesis .
qed

lemma gauss_lemma:
  assumes "prime_number p" "odd p" "coprime a p"
  shows "(a ^ nat ((p - 1) div 2)) mod p = gauss_symbol a p mod p"
proof -
  let ?H = "{1..(p - 1) div 2}"
  let ?F = "\<Prod>k \<in> ?H. k"
  have p0: "0 < p" using assms(1) by (simp add: prime_number_def)
  have n: "p = 2 * ((p - 1) div 2) + 1" using assms(2) by (rule odd_half)
  have card: "card ?H = nat ((p - 1) div 2)" by simp
  have "(\<Prod>k \<in> ?H. a * k) = (\<Prod>k \<in> ?H. a) * ?F" by (rule prod.distrib)
  also have "(\<Prod>k \<in> ?H. a) = a ^ nat ((p - 1) div 2)" by (simp only: prod_constant card)
  finally have lhs: "(\<Prod>k \<in> ?H. a * k) = a ^ nat ((p - 1) div 2) * ?F" .
  have "(\<Prod>k \<in> ?H. a * k) mod p = (\<Prod>k \<in> ?H. gauss_sign a p k * gauss_res a p k) mod p"
    using gauss_repr [OF p0] by (intro prod_mod_cong) simp
  also have "(\<Prod>k \<in> ?H. gauss_sign a p k * gauss_res a p k)
               = (\<Prod>k \<in> ?H. gauss_sign a p k) * (\<Prod>k \<in> ?H. gauss_res a p k)"
    by (rule prod.distrib)
  also have "(\<Prod>k \<in> ?H. gauss_res a p k) = ?F"
    using gauss_res_bij [OF assms(2) p0 assms(3)] by (rule prod.reindex_bij_betw)
  also have "(\<Prod>k \<in> ?H. gauss_sign a p k) = gauss_symbol a p"
    using assms(3) by (simp add: gauss_symbol_def)
  finally have "(a ^ nat ((p - 1) div 2) * ?F) mod p = (gauss_symbol a p * ?F) mod p"
    by (simp only: lhs)
  then have "p dvd a ^ nat ((p - 1) div 2) * ?F - gauss_symbol a p * ?F"
    by (simp only: mod_eq_dvd_iff)
  then have dvd: "p dvd (a ^ nat ((p - 1) div 2) - gauss_symbol a p) * ?F"
    by (simp add: algebra_simps)
  have "coprime k p" if "k \<in> ?H" for k
    using that n by (intro prime_number_coprime [OF assms(1)]) auto
  then have "coprime ?F p" by (intro prod_coprime_left) simp
  then have "coprime p ?F" by (simp add: coprime_commute)
  with dvd have "p dvd a ^ nat ((p - 1) div 2) - gauss_symbol a p"
    by (simp add: coprime_dvd_mult_left_iff)
  then show ?thesis by (simp only: mod_eq_dvd_iff)
qed

lemma sum_indicator_card:
  assumes "finite A"
  shows "(\<Sum>k \<in> A. if P k then 0 else 1 :: int) = int (card {k \<in> A. \<not> P k})"
  using assms
proof (induction A)
  case empty
  show ?case by simp
next
  case (insert x A)
  show ?case
  proof (cases "P x")
    case True
    then have "{k \<in> insert x A. \<not> P k} = {k \<in> A. \<not> P k}" by auto
    with insert True show ?thesis by simp
  next
    case False
    then have "{k \<in> insert x A. \<not> P k} = insert x {k \<in> A. \<not> P k}" by auto
    moreover have "x \<notin> {k \<in> A. \<not> P k}" using insert.hyps by simp
    moreover have "finite {k \<in> A. \<not> P k}" using insert.hyps by simp
    ultimately have "card {k \<in> insert x A. \<not> P k} = Suc (card {k \<in> A. \<not> P k})" by simp
    with insert False show ?thesis by simp
  qed
qed

text \<open>Eisenstein: the number of residues in the upper half has the parity of a sum of quotients.\<close>

lemma eisenstein_parity:
  assumes "odd (n::int)" "0 < n" "odd a" "coprime a n"
  shows "even (card {k \<in> {1..(n - 1) div 2}. \<not> (a * k) mod n \<le> (n - 1) div 2})
           \<longleftrightarrow> even (\<Sum>k \<in> {1..(n - 1) div 2}. (a * k) div n)"
proof -
  let ?H = "{1..(n - 1) div 2}"
  let ?m = "\<lambda>k. if (a * k) mod n \<le> (n - 1) div 2 then 0 else 1 :: int"
  let ?S = "\<Sum>k \<in> ?H. k" and ?Q = "\<Sum>k \<in> ?H. (a * k) div n"
  let ?M = "\<Sum>k \<in> ?H. ?m k" and ?M' = "\<Sum>k \<in> ?H. ?m k * (n - 2 * gauss_res a n k)"
  have tm: "a * k = n * ((a * k) div n) + gauss_res a n k + ?m k * (n - 2 * gauss_res a n k)" for k
  proof -
    have d: "a * k = n * ((a * k) div n) + (a * k) mod n" by simp
    have r: "gauss_res a n k + ?m k * (n - 2 * gauss_res a n k) = (a * k) mod n"
      by (simp add: gauss_res_def)
    have "n * ((a * k) div n) + gauss_res a n k + ?m k * (n - 2 * gauss_res a n k)
            = n * ((a * k) div n) + (a * k) mod n"
      by (simp only: r add.assoc)
    with d show ?thesis by (simp only:)
  qed
  have "(\<Sum>k \<in> ?H. a * k)
          = (\<Sum>k \<in> ?H. n * ((a * k) div n) + gauss_res a n k + ?m k * (n - 2 * gauss_res a n k))"
    using tm by (intro sum.cong) simp_all
  also have "\<dots> = n * ?Q + (\<Sum>k \<in> ?H. gauss_res a n k) + ?M'"
    by (simp add: sum.distrib sum_distrib_left)
  also have "(\<Sum>k \<in> ?H. gauss_res a n k) = ?S"
    using gauss_res_bij [OF assms(1,2,4)] by (rule sum.reindex_bij_betw)
  finally have "a * ?S = n * ?Q + ?S + ?M'" by (simp add: sum_distrib_left)
  then have eq: "?Q + ?M = (a - 1) * ?S - (n - 1) * ?Q - (?M' - ?M)"
    by (simp add: algebra_simps)
  have e1: "even ((a - 1) * ?S)" using assms(3) by simp
  have e2: "even ((n - 1) * ?Q)" using assms(1) by simp
  have "?M' - ?M = (\<Sum>k \<in> ?H. ?m k * (n - 2 * gauss_res a n k) - ?m k)"
    by (simp add: sum_subtractf)
  moreover have "even (\<Sum>k \<in> ?H. ?m k * (n - 2 * gauss_res a n k) - ?m k)"
  proof (rule dvd_sum)
    fix k
    have "?m k * (n - 2 * gauss_res a n k) - ?m k = ?m k * ((n - 1) - 2 * gauss_res a n k)"
      by (simp add: algebra_simps)
    moreover have "even ((n - 1) - 2 * gauss_res a n k)" using assms(1) by simp
    ultimately show "even (?m k * (n - 2 * gauss_res a n k) - ?m k)" by simp
  qed
  ultimately have e3: "even (?M' - ?M)" by simp
  have "even (?Q + ?M)" using e1 e2 e3 by (simp only: eq) simp
  then have "even ?M \<longleftrightarrow> even ?Q" by simp
  moreover have "?M = int (card {k \<in> ?H. \<not> (a * k) mod n \<le> (n - 1) div 2})"
    by (rule sum_indicator_card) simp
  ultimately show ?thesis by simp
qed

lemma gauss_symbol_quotients:
  assumes "odd (n::int)" "0 < n" "odd a" "coprime a n"
  shows "gauss_symbol a n = (if even (\<Sum>k \<in> {1..(n - 1) div 2}. (a * k) div n) then 1 else - 1)"
  using gauss_symbol_card [OF assms(4)] eisenstein_parity [OF assms] by simp

text \<open>The quotient counts the lattice points under the line.\<close>

lemma quotient_lattice_count:
  assumes "odd (n::int)" "0 < n" "odd a" "0 < a" "coprime a n"
    and k: "1 \<le> k" "k \<le> (n - 1) div 2"
  shows "(a * k) div n = (\<Sum>l \<in> {1..(a - 1) div 2}. if n * l < a * k then 1 else 0)"
proof -
  define q where "q = (a * k) div n"
  have n: "n = 2 * ((n - 1) div 2) + 1" using assms(1) by (rule odd_half)
  have a: "a = 2 * ((a - 1) div 2) + 1" using assms(3) by (rule odd_half)
  have ak: "0 < a * k" using assms(4) k by simp
  have q0: "0 \<le> q" using ak assms(2) by (simp add: q_def pos_imp_zdiv_nonneg_iff)
  have nz: "(a * k) mod n \<noteq> 0" using assms(1,5) k by (rule not_dvd_in_half)
  have qn: "q * n < a * k"
  proof -
    have "a * k = q * n + (a * k) mod n" by (simp add: q_def)
    moreover have "0 < (a * k) mod n" using nz assms(2) by (simp add: order_less_le)
    ultimately show ?thesis by linarith
  qed
  have "2 * (a * k) \<le> a * (n - 1)"
  proof -
    have "2 * k \<le> n - 1" using k(2) n by linarith
    then have "a * (2 * k) \<le> a * (n - 1)" using assms(4) by (intro mult_left_mono) simp_all
    then show ?thesis by (simp add: algebra_simps)
  qed
  moreover have "a * (n - 1) = a * n - a" by (simp add: algebra_simps)
  ultimately have "2 * (a * k) < a * n" using assms(4) by linarith
  with qn have "n * (2 * q) < n * a" by (simp add: algebra_simps)
  then have "2 * q < a" using assms(2) by (simp only: mult_less_cancel_left_pos)
  then have qh: "q \<le> (a - 1) div 2" using a by linarith
  have iff: "n * l < a * k \<longleftrightarrow> l \<le> q" for l
  proof
    assume "n * l < a * k"
    then have "(n * l) div n \<le> (a * k) div n" using assms(2) by (intro zdiv_mono1) simp_all
    then show "l \<le> q" using assms(2) by (simp add: q_def)
  next
    assume "l \<le> q"
    then have "n * l \<le> n * q" using assms(2) by (intro mult_left_mono) simp_all
    with qn show "n * l < a * k" by (simp add: algebra_simps)
  qed
  have "(\<Sum>l \<in> {1..q}. 1 :: int)
          = (\<Sum>l \<in> {1..(a - 1) div 2}. if n * l < a * k then 1 else 0)"
  proof (rule sum.mono_neutral_cong_left)
    show "finite {1..(a - 1) div 2}" by simp
    show "{1..q} \<subseteq> {1..(a - 1) div 2}" using qh by auto
    show "\<forall>l \<in> {1..(a - 1) div 2} - {1..q}. (if n * l < a * k then 1 else 0 :: int) = 0"
      using iff by auto
    show "\<And>l. l \<in> {1..q} \<Longrightarrow> (1::int) = (if n * l < a * k then 1 else 0)"
      using iff by auto
  qed
  moreover have "(\<Sum>l \<in> {1..q}. 1 :: int) = q" using q0 by simp
  ultimately show ?thesis by (simp only: q_def)
qed

lemma lattice_points_total:
  assumes "odd (n::int)" "0 < n" "odd a" "0 < a" "coprime a n"
  shows "(\<Sum>k \<in> {1..(n - 1) div 2}. (a * k) div n) + (\<Sum>l \<in> {1..(a - 1) div 2}. (n * l) div a)
           = ((a - 1) div 2) * ((n - 1) div 2)"
proof -
  let ?Hn = "{1..(n - 1) div 2}" and ?Ha = "{1..(a - 1) div 2}"
  have cna: "coprime n a" using assms(5) by (simp add: coprime_commute)
  have ne: "n * l \<noteq> a * k" if "k \<in> ?Hn" for k l
  proof
    assume "n * l = a * k"
    then have "(a * k) mod n = 0" by (metis mod_mult_self1_is_0)
    moreover have "(a * k) mod n \<noteq> 0" using that by (intro not_dvd_in_half [OF assms(1,5)]) simp_all
    ultimately show False by simp
  qed
  have 1: "(\<Sum>k \<in> ?Hn. (a * k) div n) = (\<Sum>k \<in> ?Hn. \<Sum>l \<in> ?Ha. if n * l < a * k then 1 else 0)"
    using quotient_lattice_count [OF assms] by (intro sum.cong) simp_all
  have "(\<Sum>l \<in> ?Ha. (n * l) div a) = (\<Sum>l \<in> ?Ha. \<Sum>k \<in> ?Hn. if a * k < n * l then 1 else 0)"
    using quotient_lattice_count [OF assms(3,4,1,2) cna] by (intro sum.cong) simp_all
  also have "\<dots> = (\<Sum>k \<in> ?Hn. \<Sum>l \<in> ?Ha. if a * k < n * l then 1 else 0)"
    by (rule sum.swap)
  finally have 2: "(\<Sum>l \<in> ?Ha. (n * l) div a)
                     = (\<Sum>k \<in> ?Hn. \<Sum>l \<in> ?Ha. if a * k < n * l then 1 else 0)" .
  have "(\<Sum>k \<in> ?Hn. (a * k) div n) + (\<Sum>l \<in> ?Ha. (n * l) div a)
          = (\<Sum>k \<in> ?Hn. \<Sum>l \<in> ?Ha. (if n * l < a * k then 1 else 0) + (if a * k < n * l then 1 else 0))"
    by (simp only: 1 2 sum.distrib)
  also have "\<dots> = (\<Sum>k \<in> ?Hn. \<Sum>l \<in> ?Ha. 1)"
  proof (intro sum.cong refl)
    fix k l assume "k \<in> ?Hn"
    then have "n * l \<noteq> a * k" by (rule ne)
    then show "(if n * l < a * k then 1 else 0) + (if a * k < n * l then 1 else 0) = (1::int)"
      by auto
  qed
  also have "\<dots> = ((a - 1) div 2) * ((n - 1) div 2)"
  proof -
    have "0 \<le> (a - 1) div 2" "0 \<le> (n - 1) div 2" using assms(2,4) by simp_all
    then show ?thesis by (simp add: mult.commute)
  qed
  finally show ?thesis .
qed

lemma gauss_reciprocity:
  assumes "odd (n::int)" "0 < n" "odd a" "0 < a" "coprime a n"
  shows "gauss_symbol a n * gauss_symbol n a
           = (if even (((a - 1) div 2) * ((n - 1) div 2)) then 1 else - 1)"
proof -
  have cna: "coprime n a" using assms(5) by (simp add: coprime_commute)
  let ?Q1 = "\<Sum>k \<in> {1..(n - 1) div 2}. (a * k) div n"
  let ?Q2 = "\<Sum>l \<in> {1..(a - 1) div 2}. (n * l) div a"
  have 1: "gauss_symbol a n = (if even ?Q1 then 1 else - 1)"
    using assms(1,2,3,5) by (rule gauss_symbol_quotients)
  have 2: "gauss_symbol n a = (if even ?Q2 then 1 else - 1)"
    using assms(3,4,1) cna by (rule gauss_symbol_quotients)
  have "gauss_symbol a n * gauss_symbol n a = (if even (?Q1 + ?Q2) then 1 else - 1)"
    by (simp only: 1 2) simp
  then show ?thesis by (simp only: lattice_points_total [OF assms])
qed

lemma and_one_odd: "(a::int) AND 1 \<noteq> 0 \<longleftrightarrow> odd a"
  by (simp add: and_one_eq odd_iff_mod_2_eq_one)

lemma half_product:
  assumes "odd (a::int)" "odd b"
  shows "drop_bit 2 ((a - 1) * (b - 1)) = ((a - 1) div 2) * ((b - 1) div 2)"
proof -
  define x y where "x = (a - 1) div 2" and "y = (b - 1) div 2"
  have a: "a - 1 = 2 * x" using odd_half [OF assms(1)] by (simp add: x_def)
  have b: "b - 1 = 2 * y" using odd_half [OF assms(2)] by (simp add: y_def)
  have "(a - 1) * (b - 1) = 4 * (x * y)" by (simp add: a b)
  then have "drop_bit 2 ((a - 1) * (b - 1)) = x * y" by (simp add: drop_bit_eq_div)
  then show ?thesis by (simp only: x_def y_def)
qed

lemma gauss_symbol_swap:
  assumes "odd (a::int)" "0 < a" "odd b" "0 < b"
  shows "gauss_symbol a b
           = (if odd (((a - 1) div 2) * ((b - 1) div 2)) then - gauss_symbol b a else gauss_symbol b a)"
proof (cases "coprime a b")
  case False
  then have "\<not> coprime b a" by (simp add: coprime_commute)
  with False show ?thesis by (simp add: gauss_symbol_def)
next
  case True
  have r: "gauss_symbol a b * gauss_symbol b a
             = (if even (((a - 1) div 2) * ((b - 1) div 2)) then 1 else - 1)"
    using assms(3,4,1,2) True by (rule gauss_reciprocity)
  have cba: "coprime b a" using True by (simp add: coprime_commute)
  have sq: "gauss_symbol b a * gauss_symbol b a = 1"
    using gauss_symbol_card [OF cba] by (simp split: if_splits)
  have "gauss_symbol a b = gauss_symbol a b * (gauss_symbol b a * gauss_symbol b a)"
    by (simp only: sq mult_1_right)
  also have "\<dots> = (gauss_symbol a b * gauss_symbol b a) * gauss_symbol b a"
    by (simp only: mult.assoc)
  also have "\<dots> = (if even (((a - 1) div 2) * ((b - 1) div 2)) then 1 else - 1) * gauss_symbol b a"
    by (simp only: r)
  finally show ?thesis by (simp split: if_splits)
qed

lemma gauss_symbol_halve:
  assumes "odd (b::int)" "0 < b" "even a"
  shows "gauss_symbol a b
           = (if odd ((b * b - 1) div 8) then - gauss_symbol (a div 2) b else gauss_symbol (a div 2) b)"
proof -
  have "a = 2 * (a div 2)" using assms(3) by simp
  then have "gauss_symbol a b = gauss_symbol (2 * (a div 2)) b" by simp
  also have "\<dots> = gauss_symbol 2 b * gauss_symbol (a div 2) b"
    using assms(1,2) by (rule gauss_symbol_mult)
  finally show ?thesis by (simp add: gauss_symbol_two [OF assms(1,2)])
qed

lemma jacobi_loop_gauss:
  assumes "odd b" "0 < b" "0 \<le> a" "a = 0 \<longrightarrow> 1 < b"
  shows "(case jacobi_loop a b r of (a', r') \<Rightarrow> if a' = 0 then 0 else r') = r * gauss_symbol a b"
  using assms
proof (induction a b r rule: jacobi_loop.induct)
  case (1 a b result)
  show ?case
  proof (cases "a > 1")
    case False
    then have a: "a = 0 \<or> a = 1" using "1.prems"(3) by auto
    have l: "jacobi_loop a b result = (a, result)"
      using False by (subst jacobi_loop.simps) simp
    from a show ?thesis
    proof
      assume "a = 0"
      then show ?thesis using l "1.prems"(4) by (simp add: gauss_symbol_zero)
    next
      assume "a = 1"
      then show ?thesis using l gauss_symbol_one [OF "1.prems"(1,2)] by simp
    qed
  next
    case True
    show ?thesis
    proof (cases "a AND 1 \<noteq> 0")
      case odd: True
      then have oa: "odd a" using and_one_odd [of a] by blast
      let ?r = "if drop_bit 2 ((a - 1) * (b - 1)) AND 1 \<noteq> 0 then - result else result"
      have l: "jacobi_loop a b result = jacobi_loop (b mod a) a ?r"
        using True odd by (subst jacobi_loop.simps) simp
      have a0: "0 < a" using True by simp
      have m0: "0 \<le> b mod a" using a0 by simp
      have IH: "(case jacobi_loop (b mod a) a ?r of (a', r') \<Rightarrow> if a' = 0 then 0 else r')
                  = ?r * gauss_symbol (b mod a) a"
      proof (rule "1.IH"(1) [OF True odd])
        show "odd a" by (rule oa)
        show "0 < a" by (rule a0)
        show "0 \<le> b mod a" by (rule m0)
        show "b mod a = 0 \<longrightarrow> 1 < a" using True by simp
      qed
      have sw: "gauss_symbol a b
           = (if odd (((a - 1) div 2) * ((b - 1) div 2)) then - gauss_symbol b a else gauss_symbol b a)"
        using oa a0 "1.prems"(1,2) by (rule gauss_symbol_swap)
      have par: "drop_bit 2 ((a - 1) * (b - 1)) AND 1 \<noteq> 0 \<longleftrightarrow> odd (((a - 1) div 2) * ((b - 1) div 2))"
        by (simp only: and_one_odd half_product [OF oa "1.prems"(1)])
      have "?r * gauss_symbol (b mod a) a = result * gauss_symbol a b"
        by (simp only: gauss_symbol_mod sw par) simp
      with l IH show ?thesis by simp
    next
      case even: False
      then have ea: "even a" using and_one_odd [of a] by blast
      let ?r = "if drop_bit 3 (b * b - 1) AND 1 \<noteq> 0 then - result else result"
      have l: "jacobi_loop a b result = jacobi_loop (drop_bit 1 a) b ?r"
        using True even by (subst jacobi_loop.simps) simp
      have d: "drop_bit 1 a = a div 2" by (simp add: drop_bit_eq_div)
      have h0: "0 \<le> a div 2" "a div 2 \<noteq> 0" using True by simp_all
      have IH: "(case jacobi_loop (drop_bit 1 a) b ?r of (a', r') \<Rightarrow> if a' = 0 then 0 else r')
                  = ?r * gauss_symbol (drop_bit 1 a) b"
      proof (rule "1.IH"(2) [OF True even])
        show "odd b" by (rule "1.prems"(1))
        show "0 < b" by (rule "1.prems"(2))
        show "0 \<le> drop_bit 1 a" using h0 by (simp only: d)
        show "drop_bit 1 a = 0 \<longrightarrow> 1 < b" using h0 by (simp only: d) simp
      qed
      have hv: "gauss_symbol a b
           = (if odd ((b * b - 1) div 8) then - gauss_symbol (a div 2) b else gauss_symbol (a div 2) b)"
        using "1.prems"(1,2) ea by (rule gauss_symbol_halve)
      have par: "drop_bit 3 (b * b - 1) AND 1 \<noteq> 0 \<longleftrightarrow> odd ((b * b - 1) div 8)"
        by (simp add: and_one_odd drop_bit_eq_div)
      have "?r * gauss_symbol (drop_bit 1 a) b = result * gauss_symbol a b"
        by (simp only: d hv par) simp
      with l IH show ?thesis by simp
    qed
  qed
qed

lemma jacobi_gauss:
  assumes "odd b" "1 < b" "0 \<le> a"
  shows "jacobi a b = gauss_symbol a b"
proof (cases "a = 0")
  case True
  then show ?thesis using assms(2) by (simp add: jacobi_def gauss_symbol_zero)
next
  case False
  have "(case jacobi_loop a b 1 of (a', r') \<Rightarrow> if a' = 0 then 0 else r') = 1 * gauss_symbol a b"
    using assms by (intro jacobi_loop_gauss) simp_all
  then show ?thesis using False by (simp add: jacobi_def Let_def split: prod.splits)
qed

lemma prime_number_odd_ge_3:
  assumes "prime_number n" "odd n"
  shows "3 \<le> n"
proof -
  have "1 < n" using assms(1) by (simp add: prime_number_def)
  moreover have "n \<noteq> 2" using assms(2) by auto
  ultimately show ?thesis by simp
qed

lemma jacobi_euler:
  assumes "prime_number n" "odd n" "1 \<le> x" "x \<le> n - 1"
  shows "jacobi x n mod n = x ^ nat ((n - 1) div 2) mod n"
proof -
  have n: "1 < n" using assms(1) by (simp add: prime_number_def)
  have cop: "coprime x n" using assms(1,3,4) by (intro prime_number_coprime) simp_all
  have "jacobi x n = gauss_symbol x n" using assms(2,3) n by (intro jacobi_gauss) simp_all
  then show ?thesis using gauss_lemma [OF assms(1,2) cop] by simp
qed

lemma jacobi_witness_prime:
  assumes "prime_number n" "odd n" "1 \<le> x" "x \<le> n - 1"
  shows "jacobi_witness x n = Inr False"
proof -
  have n: "3 \<le> n" using assms(1,2) by (rule prime_number_odd_ge_3)
  then have "n \<noteq> 0" "\<not> (n - 1) div 2 < 0" by simp_all
  then show ?thesis using jacobi_euler [OF assms] by (simp add: jacobi_witness_def Let_def)
qed

lemma randomized_primality_testing_prime:
  assumes "prime_number n" "odd n"
    and "\<forall>h. 1 \<le> fst (rand (n - 1) h) \<and> fst (rand (n - 1) h) \<le> n - 1"
  shows "\<exists>g'. randomized_primality_testing rand n k g = Inr (True, g')"
proof (induction k arbitrary: g)
  case 0
  show ?case by simp
next
  case (Suc k)
  obtain x g1 where r: "rand (n - 1) g = (x, g1)" by (cases "rand (n - 1) g")
  have "1 \<le> x" "x \<le> n - 1" using assms(3) [rule_format, of g] by (simp_all add: r)
  then have w: "jacobi_witness x n = Inr False" by (rule jacobi_witness_prime [OF assms(1,2)])
  have "randomized_primality_testing rand n (Suc k) g = randomized_primality_testing rand n k g1"
    by (simp add: r w)
  then show ?case using Suc.IH [of g1] by simp
qed


section \<open>The claims\<close>

text \<open>
  C2: \<^verbatim>\<open>gcd(p, q)\<close> is claimed to return the greatest common divisor of any two nonnegative
  operands without ever taking a modulo by zero, with \<^verbatim>\<open>gcd(0, q) = q\<close>. On \<^verbatim>\<open>gcd(0, 5)\<close> the
  swap makes the divisor zero and the modulo raises.
\<close>
theorem gcd_rsa_zero_first_operand:
  "gcd_rsa 0 5 = Some (Inl ZeroDivisionError)"
  by (subst gcd_rsa.simps) simp

text \<open>
  C3: \<^verbatim>\<open>int2bytes(number, block_size)\<close> is claimed to raise exactly when the minimal encoding
  is longer than \<^verbatim>\<open>block_size\<close> and otherwise to return exactly \<^verbatim>\<open>block_size\<close> bytes. For
  block size 1 the numbers 0, 1 and 256 give zero, two and two bytes.
\<close>
theorem int2bytes_block_size_defects:
  "int2bytes 0 (Some 1) = Inr []
   \<and> int2bytes 1 (Some 1) = Inr [CHR 0x00, CHR 0x01]
   \<and> int2bytes 256 (Some 1) = Inr [CHR 0x01, CHR 0x00]"
  by (simp add: int2bytes_def transform_byte_size_0 transform_byte_size_1 tbs256
        int2bytes_loop.simps char_of_def drop_bit_eq_div)

text \<open>
  C4: the bit size of transform.py is claimed to be the exact bit length, and the byte size
  that bit length divided by 8 and rounded up. For the number 1, of bit length 1, the bit
  size is 0 and the byte size is 0; for 256, of bit length 9, the bit size is 8.
\<close>

theorem transform_bit_size_not_bit_length:
  "transform_bit_size 1 = Inr 0 \<and> transform_byte_size 1 = Inr 0
   \<and> transform_bit_size 256 = Inr 8"
  by (simp add: transform_bit_size_1 transform_byte_size_1 transform_bit_size_256)

text \<open>
  C10: the bit sizes of transform.py and common.py are claimed to agree on every nonnegative
  number, and so the byte sizes. On the number 1 the bit sizes are 0 and 1 and the byte
  sizes 0 and 1; on 256 the bit sizes are 8 and 9 and the byte sizes 1 and 2.
\<close>

theorem bit_size_modules_differ:
  "transform_bit_size 1 = Inr 0 \<and> common_bit_size 1 = Inr 1
   \<and> transform_byte_size 1 = Inr 0 \<and> common_byte_size 1 = Inr 1
   \<and> transform_bit_size 256 = Inr 8 \<and> common_bit_size 256 = Inr 9
   \<and> transform_byte_size 256 = Inr 1 \<and> common_byte_size 256 = Inr 2"
  using common_bit_size_pow2 [of 0]
  by (simp add: transform_bit_size_1 transform_byte_size_1 common_byte_size_1
        transform_bit_size_256 common_bit_size_256 tbs256 common_byte_size_256)

text \<open>
  C9: for every nonnegative \<open>n\<close>, \<^verbatim>\<open>bytes2int(int2bytes(n)) = n\<close>; for \<open>n = 0\<close> the encoding
  is the empty string, which decodes to 0.
\<close>
theorem bytes2int_int2bytes_roundtrip:
  "(0 \<le> n \<longrightarrow> (\<exists>s. int2bytes n None = Inr s \<and> bytes2int_str s = n))
   \<and> int2bytes 0 None = Inr [] \<and> bytes2int_str [] = 0"
  using int2bytes_roundtrip [of n]
  by (simp add: int2bytes_def int2bytes_loop.simps bytes2int_str_def bytes2int_def)

theorem bytes2int_int2bytes_roundtrip_witness:
  "(0::int) \<le> 123456789
   \<and> int2bytes 123456789 None = Inr [CHR 0x07, CHR 0x5B, CHR 0xCD, CHR 0x15]
   \<and> bytes2int_str [CHR 0x07, CHR 0x5B, CHR 0xCD, CHR 0x15] = 123456789"
proof -
  have e: "int2bytes 123456789 None = Inr [CHR 0x07, CHR 0x5B, CHR 0xCD, CHR 0x15]"
    by (simp add: int2bytes_def int2bytes_loop.simps char_of_def drop_bit_eq_div)
  show ?thesis
    using bytes2int_int2bytes_roundtrip [of 123456789] by (simp add: e)
qed

text \<open>
  C8: \<^verbatim>\<open>extended_gcd(a, b)\<close> is claimed to return \<open>(r, i, j)\<close> with
  \<open>r = gcd a b = i * a + j * b\<close>. After the coefficients are made nonnegative the
  equation is lost: \<^verbatim>\<open>extended_gcd(7, 4) = (1, 3, 2)\<close>.
\<close>
theorem extended_gcd_bezout_counterexample:
  "extended_gcd 7 4 = (1, 3, 2) \<and> gcd (7::int) 4 = 1 \<and> (3::int) * 7 + 2 * 4 \<noteq> 1"
proof -
  have "extended_gcd 7 4 = (1, 3, 2)" by code_simp
  moreover have "gcd (7::int) 4 = 1" by code_simp
  ultimately show ?thesis by simp
qed

text \<open>
  C8, as the code has it: the loop ends with \<open>(r, i0, j0)\<close> where
  \<open>r = gcd a b = i0 * a + j0 * b\<close>; the returned triple is \<open>(r, i, j)\<close> where \<open>i\<close> is \<open>i0\<close>,
  plus \<open>b\<close> when \<open>i0\<close> is negative, and \<open>j\<close> is \<open>j0\<close>, plus \<open>a\<close> when \<open>j0\<close> is negative.
  Both are nonnegative, and \<open>i * a\<close> is congruent to \<open>r\<close> modulo \<open>b\<close>, \<open>j * b\<close> to \<open>r\<close>
  modulo \<open>a\<close>.
\<close>

theorem extended_gcd_normalised:
  assumes "0 \<le> a" "0 \<le> b"
  shows "\<exists>r i j i0 j0. extended_gcd_loop a b 0 1 1 0 = (r, i0, j0)
           \<and> extended_gcd a b = (r, i, j) \<and> r = gcd a b
           \<and> r = i0 * a + j0 * b
           \<and> i = (if i0 < 0 then i0 + b else i0) \<and> j = (if j0 < 0 then j0 + a else j0)
           \<and> 0 \<le> i \<and> 0 \<le> j
           \<and> (i * a) mod b = r mod b \<and> (j * b) mod a = r mod a"
proof -
  obtain i0 j0 where l: "extended_gcd_loop a b 0 1 1 0 = (gcd a b, i0, j0)"
    and bez: "i0 * a + j0 * b = gcd a b" and lo: "- b \<le> i0" "- a \<le> j0"
    using extended_gcd_loop_start [OF assms] by blast
  define i where "i = (if i0 < 0 then i0 + b else i0)"
  define j where "j = (if j0 < 0 then j0 + a else j0)"
  have e: "extended_gcd a b = (gcd a b, i, j)"
    by (simp add: extended_gcd_def l i_def j_def)
  have nn: "0 \<le> i" "0 \<le> j" using lo by (auto simp: i_def j_def)
  obtain i' j' where e': "extended_gcd a b = (gcd a b, i', j')"
    and c: "(i' * a) mod b = gcd a b mod b" "(j' * b) mod a = gcd a b mod a"
    using extended_gcd_congruence [OF assms] by blast
  from e e' have "i' = i" "j' = j" by simp_all
  with c have c': "(i * a) mod b = gcd a b mod b" "(j * b) mod a = gcd a b mod a" by simp_all
  have "extended_gcd_loop a b 0 1 1 0 = (gcd a b, i0, j0)
           \<and> extended_gcd a b = (gcd a b, i, j) \<and> gcd a b = gcd a b
           \<and> gcd a b = i0 * a + j0 * b
           \<and> i = (if i0 < 0 then i0 + b else i0) \<and> j = (if j0 < 0 then j0 + a else j0)
           \<and> 0 \<le> i \<and> 0 \<le> j
           \<and> (i * a) mod b = gcd a b mod b \<and> (j * b) mod a = gcd a b mod a"
    using l e bez nn c' by (simp add: i_def j_def)
  then show ?thesis by blast
qed

theorem extended_gcd_normalised_witness:
  "(0::int) \<le> 7 \<and> (0::int) \<le> 4
   \<and> extended_gcd_loop 7 4 0 1 1 0 = (1, - 1, 2) \<and> extended_gcd 7 4 = (1, 3, 2)
   \<and> gcd (7::int) 4 = 1 \<and> (1::int) = - 1 * 7 + 2 * 4
   \<and> (3::int) = - 1 + 4 \<and> ((3::int) * 7) mod 4 = 1 mod 4 \<and> ((2::int) * 4) mod 7 = 1 mod 7"
proof -
  have l: "extended_gcd_loop 7 4 0 1 1 0 = (1, - 1, 2)" by code_simp
  have e: "extended_gcd 7 4 = (1, 3, 2)" by code_simp
  show ?thesis
    using extended_gcd_normalised [of 7 4] by (auto simp: l e)
qed

text \<open>
  C7: \<^verbatim>\<open>inverse(x, n)\<close> is claimed to return \<open>v\<close> with \<open>(v * x) mod n = 1\<close> whenever
  \<open>gcd x n = 1\<close>. For the modulus 1 no such value exists: \<^verbatim>\<open>inverse(1, 1) = 0\<close>.
\<close>
theorem inverse_modulus_one_counterexample:
  "gcd (1::int) 1 = 1 \<and> inverse_rsa 1 1 = Inr 0 \<and> ((0::int) * 1) mod 1 \<noteq> 1"
proof -
  have "inverse_rsa 1 1 = Inr 0" by code_simp
  then show ?thesis by simp
qed

text \<open>
  C7, as the code has it: for positive \<open>x\<close> and \<open>n\<close>, \<^verbatim>\<open>inverse(x, n)\<close> raises exactly when
  \<open>gcd x n \<noteq> 1\<close>, and otherwise returns \<open>v\<close> with \<open>(v * x) mod n = 1 mod n\<close>;
  \<^verbatim>\<open>inverse(7, 4) = 3\<close>.
\<close>

theorem inverse_rsa_correct:
  assumes "0 < x" "0 < n"
  shows "(inverse_rsa x n = Inl ValueError_NotCoprime \<longleftrightarrow> gcd x n \<noteq> 1)
         \<and> (gcd x n = 1 \<longrightarrow> (\<exists>v. inverse_rsa x n = Inr v \<and> (v * x) mod n = 1 mod n))
         \<and> inverse_rsa 7 4 = Inr 3"
proof -
  have x: "0 \<le> x" and n: "0 \<le> n" using assms by simp_all
  have 1: "inverse_rsa x n = Inl ValueError_NotCoprime \<longleftrightarrow> gcd x n \<noteq> 1"
    by (rule inverse_rsa_props(1) [OF x n])
  have 2: "\<exists>v. inverse_rsa x n = Inr v \<and> (v * x) mod n = 1 mod n" if "gcd x n = 1"
    using inverse_rsa_props(2) [OF x n that] by blast
  have 3: "inverse_rsa 7 4 = Inr 3" by code_simp
  show ?thesis using 1 2 3 by blast
qed

theorem inverse_rsa_correct_witness:
  "(0::int) < 143 \<and> (0::int) < 4 \<and> gcd (143::int) 4 = 1
   \<and> inverse_rsa 143 4 = Inr 3 \<and> ((3::int) * 143) mod 4 = 1 mod 4"
proof -
  have e: "inverse_rsa 143 4 = Inr 3" by code_simp
  have g: "gcd (143::int) 4 = 1" by code_simp
  show ?thesis
    using inverse_rsa_correct [of 143 4] by (simp add: e g)
qed

text \<open>
  C6: for pairwise coprime positive moduli and equally many residues, \<^verbatim>\<open>crt\<close> returns the
  one \<open>x\<close> in \<open>[0, \<Prod>m\<^sub>i)\<close> that is congruent to \<open>a\<^sub>i\<close> modulo \<open>m\<^sub>i\<close> for every \<open>i\<close>;
  \<^verbatim>\<open>crt([2,3],[3,5]) = 8\<close> and \<^verbatim>\<open>crt([2,3,2],[3,5,7]) = 23\<close>.
\<close>
theorem crt_chinese_remainder:
  assumes "pairwise_coprime ms" "\<forall>m \<in> set ms. 0 < m" "length as = length ms"
  shows "(\<exists>x. crt as ms = Inr x \<and> 0 \<le> x \<and> x < prod_list ms
           \<and> (\<forall>i < length ms. x mod ms ! i = as ! i mod ms ! i)
           \<and> (\<forall>y. 0 \<le> y \<and> y < prod_list ms
                  \<and> (\<forall>i < length ms. y mod ms ! i = as ! i mod ms ! i) \<longrightarrow> y = x))
         \<and> crt [2, 3] [3, 5] = Inr 8 \<and> crt [2, 3, 2] [3, 5, 7] = Inr 23"
proof -
  have 1: "crt [2, 3] [3, 5] = Inr 8" by code_simp
  have 2: "crt [2, 3, 2] [3, 5, 7] = Inr 23" by code_simp
  show ?thesis using crt_correct [OF assms] 1 2 by blast
qed

theorem crt_chinese_remainder_witness:
  "pairwise_coprime [7, 11, 15] \<and> (0::int) < 7 \<and> (0::int) < 11 \<and> (0::int) < 15
   \<and> length [2, 3, 0 :: int] = length [7, 11, 15 :: int]
   \<and> crt [2, 3, 0] [7, 11, 15] = Inr 135 \<and> (0::int) \<le> 135 \<and> (135::int) < prod_list [7, 11, 15]
   \<and> (135::int) mod 7 = 2 mod 7 \<and> (135::int) mod 11 = 3 mod 11 \<and> (135::int) mod 15 = 0 mod 15"
proof -
  have e: "crt [2, 3, 0] [7, 11, 15] = Inr 135" by code_simp
  have "gcd (7::int) 11 = 1" "gcd (7::int) 15 = 1" "gcd (11::int) 15 = 1"
    by code_simp+
  then have c: "coprime (7::int) 11" "coprime (7::int) 15" "coprime (11::int) 15"
    by (simp_all add: coprime_iff_gcd_eq_1)
  have pc: "pairwise_coprime [7, 11, 15]" using c by simp
  show ?thesis
    using crt_chinese_remainder [of "[7, 11, 15]" "[2, 3, 0]"] pc by (simp add: e)
qed

text \<open>
  C5: every integer returned by \<^verbatim>\<open>getprime(nbits)\<close> is odd, has bit length exactly
  \<open>nbits\<close>, and is the candidate of the first round whose candidate passes the test of six
  trials: the rounds before it drew candidates that failed. (A round whose candidate passes
  makes \<^verbatim>\<open>getprime\<close> return: \<open>getprime_returns\<close>.)
\<close>

theorem getprime_first_passing_candidate:
  assumes "0 < nbits" "getprime rand raw nbits g = Some (Inr (p, g'))"
  shows "odd p \<and> common_bit_size p = Inr (int nbits)
         \<and> (\<exists>i. getprime_round rand raw nbits ((round_state rand raw nbits ^^ i) g)
                   = Inr (p, True, g')
                \<and> (\<exists>v g1. read_random_int raw nbits ((round_state rand raw nbits ^^ i) g) = (v, g1)
                      \<and> p = v OR 1
                      \<and> randomized_primality_testing rand p 6 g1 = Inr (True, g'))
                \<and> (\<forall>j<i. \<exists>c h. getprime_round rand raw nbits
                                    ((round_state rand raw nbits ^^ j) g) = Inr (c, False, h)))"
proof -
  obtain i where
    i: "getprime_round rand raw nbits ((round_state rand raw nbits ^^ i) g) = Inr (p, True, g')"
    and before: "\<forall>j<i. \<exists>c h. getprime_round rand raw nbits
                                    ((round_state rand raw nbits ^^ j) g) = Inr (c, False, h)"
    using getprime_first_round [OF assms(2)] by blast
  note c = getprime_round_candidate [OF assms(1) i]
  show ?thesis using c i before by blast
qed

theorem getprime_first_passing_candidate_witness:
  "(0::nat) < 4
   \<and> getprime (\<lambda>m g. (2, g)) (\<lambda>n g. (g, g + 2)) 4 (8::int) = Some (Inr (11, 12))
   \<and> getprime_round (\<lambda>m g. (2, g)) (\<lambda>n g. (g, g + 2)) 4 (8::int) = Inr (9, False, 10)
   \<and> getprime_round (\<lambda>m g. (2, g)) (\<lambda>n g. (g, g + 2)) 4 (10::int) = Inr (11, True, 12)
   \<and> odd (11::int) \<and> common_bit_size 11 = Inr 4"
proof -
  have r0: "getprime_round (\<lambda>m g. (2, g)) (\<lambda>n g. (g, g + 2)) 4 (8::int) = Inr (9, False, 10)"
    by code_simp
  have r1: "getprime_round (\<lambda>m g. (2, g)) (\<lambda>n g. (g, g + 2)) 4 (10::int) = Inr (11, True, 12)"
    by code_simp
  have e: "getprime (\<lambda>m g. (2, g)) (\<lambda>n g. (g, g + 2)) 4 (8::int) = Some (Inr (11, 12))"
    by (subst getprime.simps, simp add: r0, subst getprime.simps, simp add: r1)
  show ?thesis
    using getprime_first_passing_candidate [of 4 "\<lambda>m g. (2, g)" "\<lambda>n g. (g, g + 2)" 8 11 12, OF _ e]
    by (simp add: r0 r1 e)
qed

text \<open>
  C1: for every odd prime \<open>n\<close> (so \<open>n \<ge> 3\<close>) and every witness \<open>x\<close> in \<open>[1, n - 1]\<close>,
  the Jacobi symbol \<^verbatim>\<open>jacobi(x, n)\<close> reduced modulo \<open>n\<close> equals \<open>x ^ ((n - 1) / 2) mod n\<close>, so
  \<^verbatim>\<open>jacobi_witness(x, n)\<close> returns False; hence for every \<open>k\<close> and every provider whose
  draws lie in \<open>[1, n - 1]\<close>, \<^verbatim>\<open>randomized_primality_testing(n, k)\<close> returns True.
\<close>

theorem primality_test_accepts_odd_primes:
  assumes "prime_number n" "odd n"
  shows "3 \<le> n
    \<and> (\<forall>x. 1 \<le> x \<and> x \<le> n - 1 \<longrightarrow>
          jacobi x n mod n = x ^ nat ((n - 1) div 2) mod n \<and> jacobi_witness x n = Inr False)
    \<and> (\<forall>rand k g. (\<forall>h. 1 \<le> fst (rand (n - 1) h) \<and> fst (rand (n - 1) h) \<le> n - 1) \<longrightarrow>
          (\<exists>g'. randomized_primality_testing rand n k g = Inr (True, g')))"
  using prime_number_odd_ge_3 [OF assms] jacobi_euler [OF assms] jacobi_witness_prime [OF assms]
    randomized_primality_testing_prime [OF assms]
  by blast

theorem primality_test_accepts_odd_primes_witness:
  "prime_number 7 \<and> odd (7::int)
   \<and> jacobi 3 7 mod 7 = 3 ^ nat ((7 - 1) div 2) mod 7
   \<and> jacobi_witness 3 7 = Inr False
   \<and> randomized_primality_testing (\<lambda>m g. (3, g)) 7 6 () = Inr (True, ())"
proof -
  have p: "prime_number 7" by code_simp
  have o: "odd (7::int)" by simp
  note t = primality_test_accepts_odd_primes [OF p o]
  have a: "jacobi 3 7 mod 7 = 3 ^ nat ((7 - 1) div 2) mod 7 \<and> jacobi_witness 3 7 = Inr False"
    using t [THEN conjunct2, THEN conjunct1, rule_format, of 3] by simp
  have "\<exists>g'. randomized_primality_testing (\<lambda>m g. (3, g)) 7 6 () = Inr (True, g')"
    using t [THEN conjunct2, THEN conjunct2, rule_format, of "\<lambda>m g. (3, g)" 6 "()"] by simp
  then have b: "randomized_primality_testing (\<lambda>m g. (3, g)) 7 6 () = Inr (True, ())" by simp
  show ?thesis using p o a b by blast
qed

end
